theory Spec2Isabelle
  imports Main "HOL-Library.Word" "HOL-Library.Sublist"
begin

section \<open>JavaScript strings and numbers\<close>

text \<open>
  A JavaScript string is a sequence of 16-bit code units. String literals of the source are
  written with \<open>lit\<close>, which embeds an ASCII literal.
\<close>

type_synonym code_unit = "16 word"
type_synonym jsstring = "code_unit list"

definition lit :: "string \<Rightarrow> jsstring" where
  "lit s = map (\<lambda>c. of_nat (of_char c)) s"

text \<open>The regular-expression class \<open>\d\<close>: the ten ASCII digits.\<close>

definition is_digit :: "code_unit \<Rightarrow> bool" where
  "is_digit c = (48 \<le> unat c \<and> unat c \<le> 57)"

text \<open>
  The class \<open>\s\<close>, which is also what \<open>String.prototype.trim\<close> strips: WhiteSpace
  (TAB, VT, FF, SP, NBSP, ZWNBSP and the category Zs) together with LineTerminator
  (LF, CR, LS, PS).
\<close>

definition is_space :: "code_unit \<Rightarrow> bool" where
  "is_space c =
     (unat c \<in> {9, 10, 11, 12, 13, 32, 160, 5760, 8232, 8233, 8239, 8287, 12288, 65279}
      \<or> (8192 \<le> unat c \<and> unat c \<le> 8202))"

definition trim :: "jsstring \<Rightarrow> jsstring" where
  "trim s = rev (dropWhile is_space (rev (dropWhile is_space s)))"

text \<open>
  Matching under the \<open>i\<close> flag compares canonicalised code units. Every letter of the
  pattern is ASCII, and no code unit from 128 on canonicalises to an ASCII one, so a
  code unit matches a pattern letter exactly when it is that letter in either case.
\<close>

definition canonicalize :: "nat \<Rightarrow> nat" where
  "canonicalize n = (if 97 \<le> n \<and> n \<le> 122 then n - 32 else n)"

definition ci_eq :: "code_unit \<Rightarrow> char \<Rightarrow> bool" where
  "ci_eq c p = (canonicalize (unat c) = canonicalize (of_char p))"

text \<open>\<open>toLowerCase\<close>, as it acts on the ASCII letters a match of the unit group holds.\<close>

definition toLowerCase :: "jsstring \<Rightarrow> jsstring" where
  "toLowerCase s =
     map (\<lambda>c. if 65 \<le> unat c \<and> unat c \<le> 90 then of_nat (unat c + 32) else c) s"

definition startsWith :: "jsstring \<Rightarrow> string \<Rightarrow> bool" where
  "startsWith s p = prefix (lit p) s"

text \<open>
  The numbers the age parser produces are doubles holding a non-negative integer, or
  \<open>Infinity\<close>. \<open>round_double\<close> is the Number value of a natural number: round to 53
  significant bits, ties to even, \<open>Infinity\<close> from \<open>2 ^ 1024\<close> on.
\<close>

datatype jsnum = Fin nat | Infinity

fun bitlen :: "nat \<Rightarrow> nat" where
  "bitlen n = (if n = 0 then 0 else Suc (bitlen (n div 2)))"

declare bitlen.simps [simp del]

definition round_double :: "nat \<Rightarrow> jsnum" where
  "round_double n =
     (let e = bitlen n - 53;
          q = n div 2 ^ e;
          r = n mod 2 ^ e;
          q' = (if 2 ^ e < 2 * r \<or> (2 * r = 2 ^ e \<and> odd q) then q + 1 else q)
      in if 2 ^ 1024 \<le> q' * 2 ^ e then Infinity else Fin (q' * 2 ^ e))"

text \<open>\<open>x * k\<close> for a positive integer literal \<open>k\<close>.\<close>

fun times_lit :: "jsnum \<Rightarrow> nat \<Rightarrow> jsnum" where
  "times_lit (Fin a) k = round_double (a * k)"
| "times_lit Infinity k = Infinity"

text \<open>\<open>a < b\<close> on these numbers.\<close>

fun less_num :: "jsnum \<Rightarrow> jsnum \<Rightarrow> bool" where
  "less_num (Fin a) (Fin b) = (a < b)"
| "less_num (Fin a) Infinity = True"
| "less_num Infinity b = False"

text \<open>\<open>Number(m[1])\<close> for a string of decimal digits.\<close>

definition decimal :: "jsstring \<Rightarrow> nat" where
  "decimal ds = foldl (\<lambda>a c. 10 * a + (unat c - 48)) 0 ds"

definition Number :: "jsstring \<Rightarrow> jsnum" where
  "Number ds = round_double (decimal ds)"

section \<open>The age parser\<close>

text \<open>
  \<^verbatim>\<open>/^(\d+)\s+(minute|minutes|hour|hours|day|days)\s+ago$/i\<close>

  \<open>match_ci p s\<close> consumes the literal \<open>p\<close> from the front of \<open>s\<close>, ignoring case.
  \<open>match_ago\<close> is the continuation \<open>\s+ago$\<close>. \<open>match_unit\<close> is the alternation: the
  alternatives are tried in the order written, and an alternative whose continuation
  fails is given up for the next one. A greedy \<open>\d+\<close> or \<open>\s+\<close> that gave a character
  back would leave a digit or a space where the next token cannot start, so only the
  longest run is tried.
\<close>

fun match_ci :: "string \<Rightarrow> jsstring \<Rightarrow> jsstring option" where
  "match_ci [] s = Some s"
| "match_ci (p # ps) [] = None"
| "match_ci (p # ps) (c # cs) = (if ci_eq c p then match_ci ps cs else None)"

definition match_ago :: "jsstring \<Rightarrow> bool" where
  "match_ago r =
     (takeWhile is_space r \<noteq> [] \<and> match_ci ''ago'' (dropWhile is_space r) = Some [])"

definition units :: "string list" where
  "units = [''minute'', ''minutes'', ''hour'', ''hours'', ''day'', ''days'']"

fun match_unit :: "string list \<Rightarrow> jsstring \<Rightarrow> jsstring option" where
  "match_unit [] r = None"
| "match_unit (u # us) r =
     (case match_ci u r of
        None \<Rightarrow> match_unit us r
      | Some rest \<Rightarrow> if match_ago rest then Some (take (length u) r) else match_unit us r)"

text \<open>The result of \<open>match\<close>: the two groups \<open>m[1]\<close> and \<open>m[2]\<close>, or \<open>None\<close> for null.\<close>

definition match_age :: "jsstring \<Rightarrow> (jsstring \<times> jsstring) option" where
  "match_age s =
     (let m1 = takeWhile is_digit s;
          r1 = dropWhile is_digit s
      in if m1 = [] \<or> takeWhile is_space r1 = [] then None
         else map_option (Pair m1) (match_unit units (dropWhile is_space r1)))"

text \<open>
  \<open>parseAgeToSeconds\<close> of the extended script. The argument is a string: every caller
  passes the \<open>age\<close> field, which the page extraction sets to a string.
\<close>

definition parseAgeToSeconds :: "jsstring \<Rightarrow> jsnum option" where
  "parseAgeToSeconds ageText =
     (case match_age (trim ageText) of
        None \<Rightarrow> None
      | Some (m1, m2) \<Rightarrow>
          (let n = Number m1; unit = toLowerCase m2
           in if startsWith unit ''minute'' then Some (times_lit n 60)
              else if startsWith unit ''hour'' then Some (times_lit (times_lit n 60) 60)
              else if startsWith unit ''day''
                then Some (times_lit (times_lit (times_lit n 24) 60) 60)
              else None))"

text \<open>
  The grammar in words, for comparison with the matcher: a count of one or more digits,
  one or more whitespace, a unit word in any case, one or more whitespace, and \<open>ago\<close>
  in any case. \<open>spells p u\<close>: the text \<open>u\<close> is the word \<open>p\<close> up to case.
\<close>

definition spells :: "string \<Rightarrow> jsstring \<Rightarrow> bool" where
  "spells p u = list_all2 ci_eq u p"

definition lower_letter :: "char \<Rightarrow> bool" where
  "lower_letter p = (97 \<le> (of_char p :: nat) \<and> (of_char p :: nat) \<le> 122)"

definition age_text :: "jsstring \<Rightarrow> jsstring \<Rightarrow> jsstring \<Rightarrow> jsstring \<Rightarrow> jsstring \<Rightarrow> jsstring" where
  "age_text ds w1 u w2 a = ds @ w1 @ u @ w2 @ a"

definition age_parts :: "jsstring \<Rightarrow> jsstring \<Rightarrow> string \<Rightarrow> jsstring \<Rightarrow> jsstring \<Rightarrow> jsstring \<Rightarrow> bool" where
  "age_parts ds w1 p u w2 a =
     (ds \<noteq> [] \<and> list_all is_digit ds \<and> w1 \<noteq> [] \<and> list_all is_space w1
      \<and> p \<in> set units \<and> spells p u
      \<and> w2 \<noteq> [] \<and> list_all is_space w2 \<and> spells ''ago'' a)"

definition in_age_grammar :: "jsstring \<Rightarrow> bool" where
  "in_age_grammar s = (\<exists>ds w1 p u w2 a. s = age_text ds w1 u w2 a \<and> age_parts ds w1 p u w2 a)"

text \<open>Seconds per unit: minutes 60, hours 3600, days 86400.\<close>

definition unit_seconds :: "string \<Rightarrow> nat" where
  "unit_seconds p =
     (if p = ''minute'' \<or> p = ''minutes'' then 60
      else if p = ''hour'' \<or> p = ''hours'' then 3600
      else 86400)"

section \<open>Items and the ordering check\<close>

text \<open>
  A row as the page extraction returns it, \<open>{ id, title, age }\<close>, each field a string
  and empty where the page has nothing, and a collected item, \<open>{ ...it, ageSeconds }\<close>,
  where \<open>None\<close> stands for \<open>null\<close>.
\<close>

record rawrecord =
  id' :: jsstring
  title :: jsstring
  age :: jsstring

record item = rawrecord +
  ageSeconds :: "jsnum option"

datatype kind = PARSE_ERROR | SORT_VIOLATION

text \<open>
  The object \<open>validateSortedNewestToOldest\<close> returns: \<open>{ ok: true }\<close>, or
  \<open>{ ok: false, kind, index, message, prev, curr }\<close>. The message is a rendering of the
  other fields and is left out.
\<close>

datatype validation = Ok | NotOk kind nat item item

text \<open>
  The field \<open>index\<close> counts from 0. The place of the later item counted from 1 is
  \<open>index + 1\<close>, which the message of a sort violation prints as its position.
\<close>

fun position :: "validation \<Rightarrow> nat option" where
  "position Ok = None"
| "position (NotOk k i p c) = Some (i + 1)"

text \<open>The loop \<open>for (let i = 1; i < items.length; i++)\<close>, entered at \<open>i\<close>.\<close>

function validate_from :: "nat \<Rightarrow> item list \<Rightarrow> validation" where
  "validate_from i items =
     (if i < length items then
        (let prev = items ! (i - 1); cur = items ! i
         in case (ageSeconds prev, ageSeconds cur) of
              (Some a, Some b) \<Rightarrow>
                if less_num b a then NotOk SORT_VIOLATION i prev cur
                else validate_from (i + 1) items
            | _ \<Rightarrow> NotOk PARSE_ERROR i prev cur)
      else Ok)"
  by pat_completeness auto
termination
  by (relation "measure (\<lambda>(i, items). length items - i)") auto

declare validate_from.simps [simp del]

definition validateSortedNewestToOldest :: "item list \<Rightarrow> validation" where
  "validateSortedNewestToOldest items = validate_from 1 items"

text \<open>
  What it means for the adjacent pair ending at index \<open>i\<close> to fail: an age is missing, or
  both are present and the later one is smaller.
\<close>

definition unparsed_at :: "item list \<Rightarrow> nat \<Rightarrow> bool" where
  "unparsed_at items i =
     (ageSeconds (items ! (i - 1)) = None \<or> ageSeconds (items ! i) = None)"

definition decreasing_at :: "item list \<Rightarrow> nat \<Rightarrow> bool" where
  "decreasing_at items i =
     (case (ageSeconds (items ! (i - 1)), ageSeconds (items ! i)) of
        (Some a, Some b) \<Rightarrow> less_num b a
      | _ \<Rightarrow> False)"

definition pair_fails :: "item list \<Rightarrow> nat \<Rightarrow> bool" where
  "pair_fails items i = (unparsed_at items i \<or> decreasing_at items i)"

text \<open>Every age was parsed; ages never decrease from an item to any later one.\<close>

definition ages_present :: "item list \<Rightarrow> bool" where
  "ages_present items = list_all (\<lambda>it. ageSeconds it \<noteq> None) items"

definition non_decreasing :: "item list \<Rightarrow> bool" where
  "non_decreasing items =
     sorted_wrt (\<lambda>x y. \<not> less_num (the (ageSeconds y)) (the (ageSeconds x))) items"

text \<open>An item with a given identifier and parsed age, for examples.\<close>

definition item_of :: "string \<Rightarrow> jsnum option \<Rightarrow> item" where
  "item_of i a = \<lparr>id' = lit i, title = [], age = [], ageSeconds = a\<rparr>"

section \<open>Collecting across pages\<close>

text \<open>
  The variables the main routine collects into: \<open>collected\<close>, \<open>seen\<close> and
  \<open>pagesVisited\<close>.
\<close>

record crawl_state =
  collected :: "item list"
  seen :: "jsstring set"
  pagesVisited :: nat

definition make_item :: "rawrecord \<Rightarrow> item" where
  "make_item it =
     \<lparr>id' = id' it, title = title it, age = age it, ageSeconds = parseAgeToSeconds (age it)\<rparr>"

text \<open>
  The loop \<open>for (const it of pageItems)\<close>: a row without identifier or with one already
  seen is passed over; any other is marked seen and pushed, and the loop is left as soon
  as the length equals \<open>COUNT\<close>.
\<close>

fun collect_page :: "nat \<Rightarrow> rawrecord list \<Rightarrow> crawl_state \<Rightarrow> crawl_state" where
  "collect_page COUNT [] st = st"
| "collect_page COUNT (it # rest) st =
     (if id' it = [] \<or> id' it \<in> seen st then collect_page COUNT rest st
      else (let st' = st\<lparr>seen := insert (id' it) (seen st),
                          collected := collected st @ [make_item it]\<rparr>
            in if length (collected st') = COUNT then st'
               else collect_page COUNT rest st'))"

text \<open>
  What can be thrown inside the \<open>try\<close> block and after it, one constructor for each
  place: \<open>waitForSelector\<close> finds no row on the page; \<open>more.waitFor\<close> finds no More link;
  the \<open>Expected EXACTLY\<close> error with the count wanted and the count got; the error made
  from the message of a failed validation; a failed write of the artifacts; a failed write
  of the summary.
\<close>

datatype thrown =
    SelectorTimeout
  | MoreLinkTimeout
  | ExpectedExactly nat nat
  | ValidationError validation
  | ArtifactsError
  | SummaryError

text \<open>
  \<open>getItemsOnPage\<close> on a page with the given rows: it waits for a row to show and
  fails when there is none.
\<close>

definition getItemsOnPage :: "rawrecord list \<Rightarrow> thrown + rawrecord list" where
  "getItemsOnPage rows = (if rows = [] then Inl SelectorTimeout else Inr rows)"

text \<open>
  The loop \<open>while (collected.length < COUNT)\<close> over a feed: \<open>cur\<close> holds the rows of the
  page shown and \<open>later\<close> the pages that successive clicks on More lead to; the last page
  has no More link. The result is the state reached and the error thrown, if any. After
  a page that fills the collection the loop test fails, and the loop is left.
\<close>

fun crawl :: "nat \<Rightarrow> rawrecord list \<Rightarrow> rawrecord list list \<Rightarrow> crawl_state
    \<Rightarrow> crawl_state \<times> thrown option" where
  "crawl COUNT cur later st =
     (if length (collected st) < COUNT then
        (case getItemsOnPage cur of
           Inl e \<Rightarrow> (st, Some e)
         | Inr pageItems \<Rightarrow>
             (let st' = collect_page COUNT pageItems st
              in if length (collected st') < COUNT then
                   (case later of
                      [] \<Rightarrow> (st', Some MoreLinkTimeout)
                    | nxt # later' \<Rightarrow>
                        crawl COUNT nxt later' (st'\<lparr>pagesVisited := pagesVisited st' + 1\<rparr>))
                 else (st', None)))
      else (st, None))"

declare crawl.simps [simp del]

text \<open>
  In words: a row takes part if it has an identifier, and of the rows with one
  identifier the first wins.
\<close>

primrec first_seen :: "rawrecord list \<Rightarrow> rawrecord list" where
  "first_seen [] = []"
| "first_seen (r # rs) =
     (if id' r = [] then first_seen rs
      else r # filter (\<lambda>r'. id' r' \<noteq> id' r) (first_seen rs))"

text \<open>The rows among \<open>recs\<close> that are new when the identifiers in \<open>S\<close> were seen before.\<close>

definition pending :: "jsstring set \<Rightarrow> rawrecord list \<Rightarrow> rawrecord list" where
  "pending S recs = filter (\<lambda>r. id' r \<notin> S) (first_seen recs)"

text \<open>
  The pages whose rows can be fetched: those before the first page that shows no row.
\<close>

definition readable :: "rawrecord list list \<Rightarrow> rawrecord list list" where
  "readable pages = takeWhile (\<lambda>p. p \<noteq> []) pages"

section \<open>The run\<close>

datatype status = PASS | FAIL

text \<open>
  The setting \<open>ARTIFACTS\<close>; any value other than \<open>on_fail\<close> and \<open>always\<close> writes
  nothing, as \<open>off\<close> does.
\<close>

datatype artifacts_mode = On_fail | Always | Off

datatype label = Pass_label | Fail_label

text \<open>
  What the run meets outside: the feed, and whether writing the artifacts or the summary
  fails. Opening the browser and loading the first page are taken to succeed, and
  tracing, whose every call in the handlers swallows its errors, is left out.
\<close>

record world =
  first_page :: "rawrecord list"
  later_pages :: "rawrecord list list"
  artifacts_fail :: bool
  summary_fail :: bool

text \<open>
  The variables of the main routine, \<open>process.exitCode\<close> (unset at the start), the labels
  of the artifact sets written, and the summary written: its result line, pages visited
  and detail.
\<close>

record run_vars =
  crawled :: crawl_state
  validationResult :: "validation option"
  status :: status
  detail :: "thrown option"
  exitCode :: "nat option"
  artifacts :: "label list"
  summary :: "(status \<times> nat \<times> thrown option) option"

definition initial_crawl :: crawl_state where
  "initial_crawl = \<lparr>collected = [], seen = {}, pagesVisited = 1\<rparr>"

definition initial_vars :: run_vars where
  "initial_vars =
     \<lparr>crawled = initial_crawl, validationResult = None, status = FAIL, detail = None,
      exitCode = None, artifacts = [], summary = None\<rparr>"

text \<open>\<open>writeArtifacts\<close>, called with a label: the variables after it, and its error.\<close>

definition writeArtifacts :: "artifacts_mode \<Rightarrow> world \<Rightarrow> label \<Rightarrow> run_vars \<Rightarrow> run_vars \<times> thrown option" where
  "writeArtifacts mode w l v =
     (if mode = Off then (v, None)
      else if artifacts_fail w then (v, Some ArtifactsError)
      else (v\<lparr>artifacts := artifacts v @ [l]\<rparr>, None))"

text \<open>The \<open>try\<close> block, from after the first page is loaded.\<close>

definition try_block :: "nat \<Rightarrow> artifacts_mode \<Rightarrow> world \<Rightarrow> run_vars \<times> thrown option" where
  "try_block COUNT mode w =
     (case crawl COUNT (first_page w) (later_pages w) initial_crawl of
        (st, Some e) \<Rightarrow> (initial_vars\<lparr>crawled := st\<rparr>, Some e)
      | (st, None) \<Rightarrow>
          (let v = initial_vars\<lparr>crawled := st\<rparr>
           in if length (collected st) \<noteq> COUNT
              then (v, Some (ExpectedExactly COUNT (length (collected st))))
              else (let r = validateSortedNewestToOldest (collected st);
                        v1 = v\<lparr>validationResult := Some r\<rparr>
                    in if r \<noteq> Ok then (v1, Some (ValidationError r))
                       else (let v2 = v1\<lparr>status := PASS, exitCode := Some 0\<rparr>
                             in if mode = Always then writeArtifacts mode w Pass_label v2
                                else (v2, None)))))"

text \<open>The \<open>catch\<close> block: the artifacts are written with \<open>.catch(() => {})\<close>.\<close>

definition catch_block :: "artifacts_mode \<Rightarrow> world \<Rightarrow> thrown \<Rightarrow> run_vars \<Rightarrow> run_vars" where
  "catch_block mode w e v =
     (let v1 = v\<lparr>detail := Some e, exitCode := Some 1\<rparr>
      in if mode = On_fail \<or> mode = Always then fst (writeArtifacts mode w Fail_label v1)
         else v1)"

text \<open>\<open>writeSummary\<close>: the variables after it, and its error.\<close>

definition writeSummary :: "world \<Rightarrow> run_vars \<Rightarrow> run_vars \<times> thrown option" where
  "writeSummary w v =
     (if summary_fail w then (v, Some SummaryError)
      else (v\<lparr>summary := Some (status v, pagesVisited (crawled v), detail v)\<rparr>, None))"

text \<open>The \<open>finally\<close> block: \<open>writeSummary\<close> is called bare, so its error leaves the routine.\<close>

definition finally_block :: "world \<Rightarrow> run_vars \<Rightarrow> run_vars \<times> thrown option" where
  "finally_block w v = writeSummary w v"

text \<open>
  The main routine: the final variables, and the error with which its promise is
  rejected, if any.
\<close>

definition run :: "nat \<Rightarrow> artifacts_mode \<Rightarrow> world \<Rightarrow> run_vars \<times> thrown option" where
  "run COUNT mode w =
     (case try_block COUNT mode w of
        (v, None) \<Rightarrow> finally_block w v
      | (v, Some e) \<Rightarrow> finally_block w (catch_block mode w e v))"

text \<open>A row with a given identifier and age label, for examples.\<close>

definition row :: "string \<Rightarrow> string \<Rightarrow> rawrecord" where
  "row i a = \<lparr>id' = lit i, title = [], age = lit a\<rparr>"

section \<open>The basic script\<close>

text \<open>
  The first version of the script has the same matcher, page loop and \<open>try\<close> block
  without artifacts. Its parser multiplies by 3600 and by 86400 in one step, and its
  check, \<open>assertSortedNewestToOldest\<close>, throws where the extended one returns an object:
  one error for a missing age, naming the two items, and one for a smaller later age,
  naming the position \<open>i + 1\<close> and the two items. \<open>None\<close> stands for a normal return.
\<close>

definition parseAgeToSeconds_basic :: "jsstring \<Rightarrow> jsnum option" where
  "parseAgeToSeconds_basic text =
     (case match_age (trim text) of
        None \<Rightarrow> None
      | Some (m1, m2) \<Rightarrow>
          (let n = Number m1; unit = toLowerCase m2
           in if startsWith unit ''minute'' then Some (times_lit n 60)
              else if startsWith unit ''hour'' then Some (times_lit n 3600)
              else if startsWith unit ''day'' then Some (times_lit n 86400)
              else None))"

datatype assertion_error = AgeParseFailed item item | SortingViolation nat item item

function assert_from :: "nat \<Rightarrow> item list \<Rightarrow> assertion_error option" where
  "assert_from i items =
     (if i < length items then
        (let prev = items ! (i - 1); cur = items ! i
         in case (ageSeconds prev, ageSeconds cur) of
              (Some a, Some b) \<Rightarrow>
                if less_num b a then Some (SortingViolation (i + 1) prev cur)
                else assert_from (i + 1) items
            | _ \<Rightarrow> Some (AgeParseFailed prev cur))
      else None)"
  by pat_completeness auto
termination
  by (relation "measure (\<lambda>(i, items). length items - i)") auto

declare assert_from.simps [simp del]

definition assertSortedNewestToOldest :: "item list \<Rightarrow> assertion_error option" where
  "assertSortedNewestToOldest items = assert_from 1 items"

text \<open>
  Example feeds. \<open>short_feed\<close>: two pages with three identifiers between them, the last
  page without More link. \<open>broken_feed\<close>: a page of one row, then a page that shows no
  row. \<open>sorted_feed\<close>: one page of two rows in order, in a world where writing the
  artifacts fails, or writing the summary fails.
\<close>

definition short_feed :: world where
  "short_feed =
     \<lparr>first_page = [row ''1'' ''1 minute ago'', row ''2'' ''2 minutes ago''],
      later_pages = [[row ''2'' ''2 minutes ago'', row ''3'' ''3 minutes ago'']],
      artifacts_fail = False, summary_fail = False\<rparr>"

definition broken_feed :: world where
  "broken_feed =
     \<lparr>first_page = [row ''1'' ''1 minute ago''], later_pages = [[]],
      artifacts_fail = False, summary_fail = False\<rparr>"

definition sorted_feed :: "bool \<Rightarrow> bool \<Rightarrow> world" where
  "sorted_feed af sf =
     \<lparr>first_page = [row ''1'' ''1 minute ago'', row ''2'' ''2 minutes ago''],
      later_pages = [], artifacts_fail = af, summary_fail = sf\<rparr>"

section \<open>Properties of the age parser\<close>

lemma bitlen_0: "bitlen 0 = 0"
  by (simp add: bitlen.simps)

lemma bitlen_pos: "0 < n \<Longrightarrow> bitlen n = Suc (bitlen (n div 2))"
  by (subst bitlen.simps) simp

lemma bitlen_le: "n < 2 ^ k \<Longrightarrow> bitlen n \<le> k"
proof (induction k arbitrary: n)
  case 0
  then show ?case by (simp add: bitlen_0)
next
  case (Suc k)
  show ?case
  proof (cases "n = 0")
    case True
    then show ?thesis by (simp add: bitlen_0)
  next
    case False
    have "n div 2 < 2 ^ k" using Suc.prems by simp
    then have "bitlen (n div 2) \<le> k" by (rule Suc.IH)
    then show ?thesis using False by (simp add: bitlen_pos)
  qed
qed

lemma round_double_exact: "n < 2 ^ 53 \<Longrightarrow> round_double n = Fin n"
proof -
  assume small: "n < 2 ^ 53"
  then have "bitlen n - 53 = 0" using bitlen_le [of n 53] by simp
  moreover have "n < 2 ^ 1024"
    using small by (rule less_trans) simp
  ultimately show ?thesis by (simp add: round_double_def Let_def)
qed

lemma times_lit_exact: "a * k < 2 ^ 53 \<Longrightarrow> times_lit (Fin a) k = Fin (a * k)"
  by (simp add: round_double_exact)

lemma digit_not_space: "is_digit c \<Longrightarrow> \<not> is_space c"
  by (auto simp: is_digit_def is_space_def)

lemma ci_eq_letter:
  "lower_letter p \<Longrightarrow> ci_eq c p \<longleftrightarrow> (unat c = of_char p \<or> unat c + 32 = of_char p)"
  by (auto simp: lower_letter_def ci_eq_def canonicalize_def)

lemma letter_not_space: "lower_letter p \<Longrightarrow> ci_eq c p \<Longrightarrow> \<not> is_space c"
  by (auto simp: ci_eq_letter) (auto simp: lower_letter_def is_space_def)

lemma letter_lower:
  "lower_letter p \<Longrightarrow> ci_eq c p \<Longrightarrow>
   (if 65 \<le> unat c \<and> unat c \<le> 90 then of_nat (unat c + 32) else c) = (of_nat (of_char p) :: code_unit)"
proof -
  assume l: "lower_letter p" and "ci_eq c p"
  then consider "unat c = of_char p" | "unat c + 32 = of_char p"
    by (auto simp: ci_eq_letter)
  then show ?thesis
  proof cases
    case 1
    have "word_of_nat (unat c) = c"
      by simp
    then have "word_of_nat (of_char p) = c"
      using 1 by simp
    then show ?thesis using 1 l by (simp add: lower_letter_def)
  next
    case 2
    have "word_of_nat (unat c + 32) = (word_of_nat (of_char p) :: code_unit)"
      using 2 by simp
    then show ?thesis using 2 l by (simp add: lower_letter_def)
  qed
qed

lemma spells_lower: "spells p u \<Longrightarrow> list_all lower_letter p \<Longrightarrow> toLowerCase u = lit p"
  unfolding spells_def
  by (induction u p rule: list_all2_induct) (simp_all add: toLowerCase_def lit_def letter_lower)

lemma spells_not_space: "spells p u \<Longrightarrow> list_all lower_letter p \<Longrightarrow> list_all (\<lambda>c. \<not> is_space c) u"
  unfolding spells_def
  by (induction u p rule: list_all2_induct) (auto simp: letter_not_space)

lemma spells_length: "spells p u \<Longrightarrow> length u = length p"
  by (simp add: spells_def list_all2_lengthD)

lemma match_ci_spells: "spells p u \<Longrightarrow> match_ci p (u @ r) = Some r"
  unfolding spells_def
  by (induction u p rule: list_all2_induct) simp_all

lemma match_ci_Some:
  "match_ci p s = Some r \<Longrightarrow> \<exists>u. s = u @ r \<and> spells p u"
proof (induction p s rule: match_ci.induct)
  case (1 s)
  then show ?case by (simp add: spells_def)
next
  case (2 p ps)
  then show ?case by simp
next
  case (3 p ps c cs)
  then have eq: "ci_eq c p" and "match_ci ps cs = Some r"
    by (auto split: if_splits)
  then obtain u where "cs = u @ r" and "spells ps u"
    using 3 by auto
  then have "c # cs = (c # u) @ r \<and> spells (p # ps) (c # u)"
    using eq by (simp add: spells_def)
  then show ?case by blast
qed

lemma run_split:
  "list_all P u \<Longrightarrow> x = [] \<or> \<not> P (hd x) \<Longrightarrow>
   takeWhile P (u @ x) = u \<and> dropWhile P (u @ x) = x"
  by (induction u) (cases x; simp)+

lemma run_unique:
  assumes "list_all P u" and "list_all P v"
      and "x = [] \<or> \<not> P (hd x)" and "y = [] \<or> \<not> P (hd y)" and "u @ x = v @ y"
  shows "u = v \<and> x = y"
proof -
  have "takeWhile P (u @ x) = u" and "takeWhile P (v @ y) = v"
    using run_split [OF assms(1,3)] run_split [OF assms(2,4)] by blast+
  then have "u = v"
    using assms(5) by metis
  then show ?thesis
    using assms(5) by simp
qed

lemma units_letters: "q \<in> set units \<Longrightarrow> list_all lower_letter q"
  by (auto simp: units_def lower_letter_def)

lemma ago_letters: "list_all lower_letter ''ago''"
  by (simp add: lower_letter_def)

lemma spells_starts_not_space:
  assumes "spells p u" and "list_all lower_letter p" and "p \<noteq> []"
  shows "u \<noteq> [] \<and> \<not> is_space (hd u) \<and> \<not> is_space (last u)"
proof -
  have "u \<noteq> []"
    using assms spells_length [of p u] by auto
  moreover have "\<forall>c \<in> set u. \<not> is_space c"
    using spells_not_space [OF assms(1,2)] by (simp add: list_all_iff)
  ultimately show ?thesis by simp
qed

lemma match_ago_ok:
  assumes "w2 \<noteq> []" and "list_all is_space w2" and "spells ''ago'' a"
  shows "match_ago (w2 @ a)"
proof -
  have "a = [] \<or> \<not> is_space (hd a)"
    using spells_starts_not_space [OF assms(3) ago_letters] by simp
  then have "takeWhile is_space (w2 @ a) = w2" and "dropWhile is_space (w2 @ a) = a"
    using run_split [OF assms(2), of a] by simp_all
  moreover have "match_ci ''ago'' a = Some []"
    using match_ci_spells [OF assms(3), of "[]"] by simp
  ultimately show ?thesis
    using assms(1) by (simp add: match_ago_def)
qed

lemma match_ago_starts_space: "match_ago r \<Longrightarrow> r \<noteq> [] \<and> is_space (hd r)"
  by (cases r) (auto simp: match_ago_def split: if_splits)

lemma match_unit_complete:
  assumes "p \<in> set us" and "spells p u" and "\<forall>q \<in> set us. list_all lower_letter q"
      and "w2 \<noteq> []" and "list_all is_space w2" and "spells ''ago'' a"
  shows "match_unit us (u @ w2 @ a) = Some u"
  using assms(1,3)
proof (induction us)
  case Nil
  then show ?case by simp
next
  case (Cons q us)
  have here: "match_ci p (u @ w2 @ a) = Some (w2 @ a)" and ago: "match_ago (w2 @ a)"
    using match_ci_spells [OF assms(2)] match_ago_ok [OF assms(4,5,6)] by simp_all
  have u_run: "list_all (\<lambda>c. \<not> is_space c) u"
    using spells_not_space [OF assms(2)] Cons.prems by auto
  have w2_sp: "is_space (hd (w2 @ a))"
    using assms(4,5) by (cases w2) simp_all
  show ?case
  proof (cases "match_ci q (u @ w2 @ a)")
    case None
    then have "q \<noteq> p" using here by auto
    then show ?thesis using None Cons by simp
  next
    case (Some rest)
    show ?thesis
    proof (cases "match_ago rest")
      case True
      obtain v where v: "u @ w2 @ a = v @ rest" "spells q v"
        using match_ci_Some [OF Some] by blast
      have "list_all (\<lambda>c. \<not> is_space c) v"
        using spells_not_space [OF v(2)] Cons.prems by auto
      moreover have "rest = [] \<or> \<not> \<not> is_space (hd rest)"
        using match_ago_starts_space [OF True] by simp
      moreover have "w2 @ a = [] \<or> \<not> \<not> is_space (hd (w2 @ a))"
        using w2_sp by simp
      ultimately have "u = v"
        using run_unique [OF u_run, of v "w2 @ a" rest] v(1) by blast
      then have "take (length q) (u @ w2 @ a) = u"
        using spells_length [OF v(2)] by simp
      then show ?thesis using Some True by simp
    next
      case False
      then have "q \<noteq> p" using here ago Some by auto
      then show ?thesis using Some False Cons by simp
    qed
  qed
qed

lemma match_age_complete:
  assumes "age_parts ds w1 p u w2 a"
  shows "match_age (age_text ds w1 u w2 a) = Some (ds, u)"
proof -
  have parts: "ds \<noteq> []" "list_all is_digit ds" "w1 \<noteq> []" "list_all is_space w1"
    "p \<in> set units" "spells p u" "w2 \<noteq> []" "list_all is_space w2" "spells ''ago'' a"
    using assms by (simp_all add: age_parts_def)
  have p: "list_all lower_letter p" "p \<noteq> []"
    using parts(5) units_letters [of p] by (auto simp: units_def)
  have "\<not> is_digit (hd (w1 @ u @ w2 @ a))"
    using parts(3,4) digit_not_space [of "hd w1"] by (cases w1) auto
  then have d: "takeWhile is_digit (age_text ds w1 u w2 a) = ds"
    "dropWhile is_digit (age_text ds w1 u w2 a) = w1 @ u @ w2 @ a"
    using run_split [OF parts(2), of "w1 @ u @ w2 @ a"] by (simp_all add: age_text_def)
  have "\<not> is_space (hd (u @ w2 @ a))"
    using spells_starts_not_space [OF parts(6) p] by simp
  then have w: "takeWhile is_space (w1 @ u @ w2 @ a) = w1"
    "dropWhile is_space (w1 @ u @ w2 @ a) = u @ w2 @ a"
    using run_split [OF parts(4), of "u @ w2 @ a"] by simp_all
  have "match_unit units (u @ w2 @ a) = Some u"
    using match_unit_complete [OF parts(5,6) _ parts(7,8,9)] units_letters by blast
  then show ?thesis
    using d w parts(1,3) by (simp add: match_age_def)
qed

lemma trim_id: "s \<noteq> [] \<Longrightarrow> \<not> is_space (hd s) \<Longrightarrow> \<not> is_space (last s) \<Longrightarrow> trim s = s"
proof -
  assume s: "s \<noteq> []" and h: "\<not> is_space (hd s)" and l: "\<not> is_space (last s)"
  have "dropWhile is_space s = s"
    using h run_split [of is_space "[]" s] by simp
  moreover have "dropWhile is_space (rev s) = rev s"
    using s l run_split [of is_space "[]" "rev s"] by (simp add: hd_rev)
  ultimately show ?thesis
    by (simp add: trim_def)
qed

lemma trim_age_text:
  assumes "age_parts ds w1 p u w2 a"
  shows "trim (age_text ds w1 u w2 a) = age_text ds w1 u w2 a"
proof -
  have parts: "ds \<noteq> []" "list_all is_digit ds" "spells ''ago'' a"
    using assms by (simp_all add: age_parts_def)
  have a: "a \<noteq> []" "\<not> is_space (last a)"
    using spells_starts_not_space [OF parts(3) ago_letters] by simp_all
  have "\<not> is_space (hd ds)"
    using parts(1,2) digit_not_space [of "hd ds"] by (cases ds) auto
  then show ?thesis
    using parts(1) a by (intro trim_id) (simp_all add: age_text_def)
qed


lemma unit_branch:
  "p \<in> set units \<Longrightarrow>
   (startsWith (lit p) ''minute'' \<longleftrightarrow> unit_seconds p = 60)
   \<and> (startsWith (lit p) ''hour'' \<longleftrightarrow> unit_seconds p = 3600)
   \<and> (startsWith (lit p) ''day'' \<longleftrightarrow> unit_seconds p = 86400)"
proof -
  assume "p \<in> set units"
  then consider "p = ''minute''" | "p = ''minutes''" | "p = ''hour''" | "p = ''hours''"
    | "p = ''day''" | "p = ''days''"
    by (auto simp: units_def)
  then show ?thesis
    by cases (simp_all add: startsWith_def lit_def unit_seconds_def)
qed

lemma parse_matched:
  assumes "match_age (trim s) = Some (ds, u)" and "toLowerCase u = lit p" and "p \<in> set units"
  shows "parseAgeToSeconds s =
     Some (if unit_seconds p = 60 then times_lit (Number ds) 60
           else if unit_seconds p = 3600 then times_lit (times_lit (Number ds) 60) 60
           else times_lit (times_lit (times_lit (Number ds) 24) 60) 60)"
proof -
  have "unit_seconds p = 60 \<or> unit_seconds p = 3600 \<or> unit_seconds p = 86400"
    by (simp add: unit_seconds_def)
  then show ?thesis
    using unit_branch [OF assms(3)]
    by (auto simp: parseAgeToSeconds_def assms(1,2) Let_def)
qed

text \<open>
  C4. For a text of the grammar (a count of digits, whitespace, a unit word in any case,
  whitespace, \<open>ago\<close> in any case) whose count times the seconds of the unit is below
  \<open>2 ^ 53\<close>, the parser returns exactly that product. Without the bound the statement
  fails: a count of 9007199254740993 minutes is first rounded to the nearest double.
\<close>

theorem parse_grammar_exact:
  assumes "age_parts ds w1 p u w2 a" and "decimal ds * unit_seconds p < 2 ^ 53"
  shows "parseAgeToSeconds (age_text ds w1 u w2 a) = Some (Fin (decimal ds * unit_seconds p))"
proof -
  have p: "p \<in> set units" and sp: "spells p u"
    using assms(1) by (simp_all add: age_parts_def)
  have m: "match_age (trim (age_text ds w1 u w2 a)) = Some (ds, u)"
    using assms(1) by (simp add: trim_age_text match_age_complete)
  have low: "toLowerCase u = lit p"
    using sp units_letters [OF p] by (rule spells_lower)
  note parsed = parse_matched [OF m low p]
  define d where "d = decimal ds"
  have n: "Number ds = Fin d" if "d < 2 ^ 53"
    using that by (simp add: Number_def round_double_exact d_def)
  have "unit_seconds p = 60 \<or> unit_seconds p = 3600 \<or> unit_seconds p = 86400"
    by (simp add: unit_seconds_def)
  then consider "unit_seconds p = 60" | "unit_seconds p = 3600" | "unit_seconds p = 86400"
    by blast
  then show ?thesis
  proof cases
    case 1
    have b: "d * 60 < 2 ^ 53" using assms(2) 1 by (simp only: d_def)
    have "d \<le> d * 60" by simp
    then have "d < 2 ^ 53" using b by (rule le_less_trans)
    then have N: "Number ds = Fin d" by (rule n)
    have "parseAgeToSeconds (age_text ds w1 u w2 a) = Some (times_lit (Number ds) 60)"
      using parsed 1 by simp
    also have "\<dots> = Some (Fin (d * 60))"
      by (simp only: N times_lit_exact [OF b])
    finally show ?thesis by (simp only: d_def 1)
  next
    case 2
    have b: "d * 60 * 60 < 2 ^ 53" using assms(2) 2 by (simp add: d_def)
    have "d * 60 \<le> d * 60 * 60" by simp
    then have b1: "d * 60 < 2 ^ 53" using b by (rule le_less_trans)
    have "d \<le> d * 60" by simp
    then have "d < 2 ^ 53" using b1 by (rule le_less_trans)
    then have N: "Number ds = Fin d" by (rule n)
    have "parseAgeToSeconds (age_text ds w1 u w2 a)
        = Some (times_lit (times_lit (Number ds) 60) 60)"
      using parsed 2 by simp
    also have "\<dots> = Some (Fin (d * 60 * 60))"
      by (simp only: N times_lit_exact [OF b1] times_lit_exact [OF b])
    also have "d * 60 * 60 = d * 3600" by simp
    finally show ?thesis by (simp only: d_def 2)
  next
    case 3
    have b: "d * 24 * 60 * 60 < 2 ^ 53" using assms(2) 3 by (simp add: d_def)
    have "d * 24 * 60 \<le> d * 24 * 60 * 60" by simp
    then have b1: "d * 24 * 60 < 2 ^ 53" using b by (rule le_less_trans)
    have "d * 24 \<le> d * 24 * 60" by simp
    then have b2: "d * 24 < 2 ^ 53" using b1 by (rule le_less_trans)
    have "d \<le> d * 24" by simp
    then have "d < 2 ^ 53" using b2 by (rule le_less_trans)
    then have N: "Number ds = Fin d" by (rule n)
    have "parseAgeToSeconds (age_text ds w1 u w2 a)
        = Some (times_lit (times_lit (times_lit (Number ds) 24) 60) 60)"
      using parsed 3 by simp
    also have "\<dots> = Some (Fin (d * 24 * 60 * 60))"
      by (simp only: N times_lit_exact [OF b2] times_lit_exact [OF b1] times_lit_exact [OF b])
    also have "d * 24 * 60 * 60 = d * 86400" by simp
    finally show ?thesis by (simp only: d_def 3)
  qed
qed

lemmas char_eval = lit_def is_space_def is_digit_def units_def ci_eq_def canonicalize_def
  decimal_def

lemmas parse_eval = parseAgeToSeconds_def match_age_def match_ago_def trim_def toLowerCase_def
  startsWith_def Number_def round_double_def bitlen_0 bitlen_pos Let_def char_eval

lemmas parts_eval = age_parts_def age_text_def spells_def unit_seconds_def char_eval

theorem parse_grammar_exact_witness:
  "age_parts (lit ''3'') (lit '' '') ''minutes'' (lit ''minutes'') (lit '' '') (lit ''ago'')
   \<and> decimal (lit ''3'') * unit_seconds ''minutes'' < 2 ^ 53
   \<and> parseAgeToSeconds (lit ''3 minutes ago'') = Some (Fin 180)
   \<and> parseAgeToSeconds (lit ''1 hour ago'') = Some (Fin 3600)
   \<and> parseAgeToSeconds (lit ''2 days ago'') = Some (Fin 172800)"
proof -
  have m: "age_parts (lit ''3'') (lit '' '') ''minutes'' (lit ''minutes'') (lit '' '') (lit ''ago'')"
    by (simp add: parts_eval)
  have mb: "decimal (lit ''3'') * unit_seconds ''minutes'' < 2 ^ 53"
    by (simp add: parts_eval)
  have h: "age_parts (lit ''1'') (lit '' '') ''hour'' (lit ''hour'') (lit '' '') (lit ''ago'')"
    by (simp add: parts_eval)
  have hb: "decimal (lit ''1'') * unit_seconds ''hour'' < 2 ^ 53"
    by (simp add: parts_eval)
  have d: "age_parts (lit ''2'') (lit '' '') ''days'' (lit ''days'') (lit '' '') (lit ''ago'')"
    by (simp add: parts_eval)
  have db: "decimal (lit ''2'') * unit_seconds ''days'' < 2 ^ 53"
    by (simp add: parts_eval)
  show ?thesis
    using m mb parse_grammar_exact [OF m mb] parse_grammar_exact [OF h hb]
      parse_grammar_exact [OF d db]
    by (simp add: parts_eval)
qed

theorem parse_grammar_exact_counterexample:
  "age_parts (lit ''9007199254740993'') (lit '' '') ''minutes'' (lit ''minutes'') (lit '' '')
     (lit ''ago'')
   \<and> decimal (lit ''9007199254740993'') * unit_seconds ''minutes'' = 540431955284459580
   \<and> parseAgeToSeconds (age_text (lit ''9007199254740993'') (lit '' '') (lit ''minutes'')
        (lit '' '') (lit ''ago'')) = Some (Fin 540431955284459520)
   \<and> parseAgeToSeconds (age_text (lit ''9007199254740993'') (lit '' '') (lit ''minutes'')
        (lit '' '') (lit ''ago''))
       \<noteq> Some (Fin (decimal (lit ''9007199254740993'') * unit_seconds ''minutes''))"
  by (simp add: age_parts_def age_text_def spells_def unit_seconds_def parse_eval)

lemma match_unit_Some:
  "match_unit us r = Some m2 \<Longrightarrow>
   \<exists>q rest. q \<in> set us \<and> match_ci q r = Some rest \<and> match_ago rest \<and> m2 = take (length q) r"
proof (induction us)
  case Nil
  then show ?case by simp
next
  case (Cons q us)
  show ?case
  proof (cases "match_ci q r")
    case None
    then show ?thesis using Cons by auto
  next
    case (Some rest)
    then show ?thesis using Cons by (cases "match_ago rest") auto
  qed
qed

lemma match_age_sound:
  assumes "match_age s = Some (m1, m2)"
  shows "\<exists>w1 p w2 a. s = age_text m1 w1 m2 w2 a \<and> age_parts m1 w1 p m2 w2 a"
proof -
  define r1 where "r1 = dropWhile is_digit s"
  define w1 where "w1 = takeWhile is_space r1"
  define r2 where "r2 = dropWhile is_space r1"
  have m1: "m1 = takeWhile is_digit s" "m1 \<noteq> []" and w1: "w1 \<noteq> []"
    and mu: "match_unit units r2 = Some m2"
    using assms by (auto simp: match_age_def Let_def r1_def w1_def r2_def split: if_splits)
  obtain q rest where q: "q \<in> set units" "match_ci q r2 = Some rest" "match_ago rest"
    "m2 = take (length q) r2"
    using match_unit_Some [OF mu] by blast
  obtain u where u: "r2 = u @ rest" "spells q u"
    using match_ci_Some [OF q(2)] by blast
  have m2: "m2 = u"
    using q(4) u spells_length [OF u(2)] by simp
  define w2 where "w2 = takeWhile is_space rest"
  have w2: "w2 \<noteq> []" and ago: "match_ci ''ago'' (dropWhile is_space rest) = Some []"
    using q(3) by (simp_all add: match_ago_def w2_def)
  obtain a where a: "dropWhile is_space rest = a @ []" "spells ''ago'' a"
    using match_ci_Some [OF ago] by blast
  have "takeWhile is_space rest @ dropWhile is_space rest = rest"
    by (rule takeWhile_dropWhile_id)
  then have "rest = w2 @ a"
    using a(1) by (simp add: w2_def)
  moreover have "s = m1 @ r1" "r1 = w1 @ r2"
    by (simp_all add: m1(1) r1_def w1_def r2_def)
  ultimately have "s = m1 @ r1" "r1 = w1 @ r2" "rest = w2 @ a"
    by simp_all
  then have s: "s = age_text m1 w1 m2 w2 a"
    using u(1) m2 by (simp add: age_text_def)
  have "list_all is_digit m1" "list_all is_space w1" "list_all is_space w2"
    by (auto simp: m1(1) w1_def w2_def list_all_iff dest: set_takeWhileD)
  then have "age_parts m1 w1 q m2 w2 a"
    using m1(2) w1 w2 q(1) u(2) m2 a(2) by (simp add: age_parts_def)
  then show ?thesis using s by blast
qed

lemma in_age_grammar_iff: "in_age_grammar s \<longleftrightarrow> match_age s \<noteq> None"
proof
  assume "in_age_grammar s"
  then show "match_age s \<noteq> None"
    using match_age_complete by (auto simp: in_age_grammar_def)
next
  assume "match_age s \<noteq> None"
  then obtain m1 m2 where "match_age s = Some (m1, m2)" by auto
  then show "in_age_grammar s"
    using match_age_sound unfolding in_age_grammar_def by blast
qed

text \<open>
  C5. A text that, once surrounding whitespace is trimmed, is not of the grammar parses
  to null; the parser is a total function, so nothing is thrown and no default is put in.
  The trimming matters: a text with a leading space is not of the grammar as worded, and
  is parsed all the same.
\<close>

theorem parse_outside_grammar:
  "\<not> in_age_grammar (trim s) \<Longrightarrow> parseAgeToSeconds s = None"
  by (cases "match_age (trim s)") (simp_all add: in_age_grammar_iff parseAgeToSeconds_def)

theorem parse_outside_grammar_witness:
  "\<not> in_age_grammar (trim (lit ''''))
   \<and> \<not> in_age_grammar (trim (lit ''yesterday''))
   \<and> \<not> in_age_grammar (trim (lit ''5 weeks ago''))
   \<and> \<not> in_age_grammar (trim (lit ''minute ago''))
   \<and> parseAgeToSeconds (lit '''') = None
   \<and> parseAgeToSeconds (lit ''yesterday'') = None
   \<and> parseAgeToSeconds (lit ''5 weeks ago'') = None
   \<and> parseAgeToSeconds (lit ''minute ago'') = None"
proof -
  have h1: "\<not> in_age_grammar (trim (lit ''''))"
    by (simp add: in_age_grammar_iff parse_eval)
  have h2: "\<not> in_age_grammar (trim (lit ''yesterday''))"
    by (simp add: in_age_grammar_iff parse_eval)
  have h3: "\<not> in_age_grammar (trim (lit ''5 weeks ago''))"
    by (simp add: in_age_grammar_iff parse_eval)
  have h4: "\<not> in_age_grammar (trim (lit ''minute ago''))"
    by (simp add: in_age_grammar_iff parse_eval)
  show ?thesis
    using h1 h2 h3 h4 parse_outside_grammar [OF h1] parse_outside_grammar [OF h2]
      parse_outside_grammar [OF h3] parse_outside_grammar [OF h4]
    by simp
qed

theorem parse_outside_grammar_counterexample:
  "\<not> in_age_grammar (lit '' 3 minutes ago'')
   \<and> parseAgeToSeconds (lit '' 3 minutes ago'') = Some (Fin 180)"
  by (simp add: in_age_grammar_iff parse_eval)

text \<open>The parser returns null on no text of the grammar: its last \<open>return null\<close> is dead.\<close>

lemma parse_None_iff: "parseAgeToSeconds s = None \<longleftrightarrow> \<not> in_age_grammar (trim s)"
proof (cases "match_age (trim s)")
  case None
  then show ?thesis
    by (simp add: in_age_grammar_iff parseAgeToSeconds_def)
next
  case (Some m)
  obtain m1 m2 where m: "m = (m1, m2)" by (cases m)
  obtain w1 p w2 a where "age_parts m1 w1 p m2 w2 a"
    using match_age_sound Some m by blast
  then have p: "p \<in> set units" and sp: "spells p m2"
    by (simp_all add: age_parts_def)
  have low: "toLowerCase m2 = lit p"
    using sp units_letters [OF p] by (rule spells_lower)
  have "unit_seconds p = 60 \<or> unit_seconds p = 3600 \<or> unit_seconds p = 86400"
    by (simp add: unit_seconds_def)
  then have "parseAgeToSeconds s \<noteq> None"
    using unit_branch [OF p] by (auto simp: parseAgeToSeconds_def Some m low Let_def)
  then show ?thesis
    using Some by (simp add: in_age_grammar_iff)
qed

section \<open>Properties of the ordering check\<close>

lemma validate_from_end: "\<not> k < length items \<Longrightarrow> validate_from k items = Ok"
  by (subst validate_from.simps) simp

lemma validate_from_step:
  "k < length items \<Longrightarrow> \<not> pair_fails items k \<Longrightarrow>
   validate_from k items = validate_from (Suc k) items"
  by (subst validate_from.simps)
     (auto simp: pair_fails_def unparsed_at_def decreasing_at_def Let_def split: option.splits)

lemma validate_from_parse_error:
  "k < length items \<Longrightarrow> unparsed_at items k \<Longrightarrow>
   validate_from k items = NotOk PARSE_ERROR k (items ! (k - 1)) (items ! k)"
  by (subst validate_from.simps) (auto simp: unparsed_at_def Let_def split: option.splits)

lemma validate_from_sort_violation:
  "k < length items \<Longrightarrow> decreasing_at items k \<Longrightarrow>
   validate_from k items = NotOk SORT_VIOLATION k (items ! (k - 1)) (items ! k)"
  by (subst validate_from.simps) (auto simp: decreasing_at_def Let_def split: option.splits)

lemma validate_from_skip:
  "k \<le> i \<Longrightarrow> i \<le> length items \<Longrightarrow> \<forall>j. k \<le> j \<and> j < i \<longrightarrow> \<not> pair_fails items j \<Longrightarrow>
   validate_from k items = validate_from i items"
proof (induction "i - k" arbitrary: k)
  case 0
  then show ?case by simp
next
  case (Suc d)
  then have "k < i" and "k < length items" and "\<not> pair_fails items k"
    by auto
  then have "validate_from k items = validate_from (Suc k) items"
    by (simp add: validate_from_step)
  also have "\<dots> = validate_from i items"
    using Suc by (intro Suc.hyps(1)) auto
  finally show ?case .
qed

lemma validate_from_Ok_iff:
  "validate_from k items = Ok \<longleftrightarrow> (\<forall>j. k \<le> j \<and> j < length items \<longrightarrow> \<not> pair_fails items j)"
proof
  assume ok: "validate_from k items = Ok"
  show "\<forall>j. k \<le> j \<and> j < length items \<longrightarrow> \<not> pair_fails items j"
  proof (rule ccontr)
    assume "\<not> ?thesis"
    then have ex: "\<exists>j. k \<le> j \<and> j < length items \<and> pair_fails items j" by blast
    define i where "i = (LEAST j. k \<le> j \<and> j < length items \<and> pair_fails items j)"
    have i: "k \<le> i \<and> i < length items \<and> pair_fails items i"
      unfolding i_def using ex by (rule LeastI_ex)
    have least: "\<forall>j. k \<le> j \<and> j < i \<longrightarrow> \<not> pair_fails items j"
      unfolding i_def using not_less_Least by (metis (mono_tags, lifting) i i_def less_trans)
    have "validate_from k items = validate_from i items"
      using i least by (intro validate_from_skip) auto
    moreover have "validate_from i items \<noteq> Ok"
      using i validate_from_parse_error [of i items] validate_from_sort_violation [of i items]
      by (auto simp: pair_fails_def)
    ultimately show False using ok by simp
  qed
next
  assume none: "\<forall>j. k \<le> j \<and> j < length items \<longrightarrow> \<not> pair_fails items j"
  show "validate_from k items = Ok"
  proof (cases "k < length items")
    case True
    then have "validate_from k items = validate_from (length items) items"
      using none validate_from_skip [of k "length items" items] by simp
    then show ?thesis by (simp add: validate_from_end)
  next
    case False
    then show ?thesis by (simp add: validate_from_end)
  qed
qed

text \<open>
  C10. A list of no item or of one item passes the check, whatever the age of the single
  item: the loop starts at index 1 and only ever looks at pairs, so a missing age is
  found only as part of an adjacent pair.
\<close>

theorem validate_short:
  "length items \<le> 1 \<Longrightarrow> validateSortedNewestToOldest items = Ok"
  by (simp add: validateSortedNewestToOldest_def validate_from_end)

theorem validate_short_witness:
  "length [item_of ''1'' None] \<le> 1 \<and> validateSortedNewestToOldest [item_of ''1'' None] = Ok
   \<and> ageSeconds (item_of ''1'' None) = None"
  using validate_short [of "[item_of ''1'' None]"] by (simp add: item_of_def)

lemma validate_from_first_failure:
  assumes "0 < i" and "i < length items" and "pair_fails items i"
      and "\<forall>j. 0 < j \<and> j < i \<longrightarrow> \<not> pair_fails items j"
  shows "validateSortedNewestToOldest items = validate_from i items"
  unfolding validateSortedNewestToOldest_def
  using assms validate_from_skip [of 1 i items] by (simp add: Suc_le_eq)

lemma ages_present_not_unparsed:
  "ages_present items \<Longrightarrow> 0 < j \<Longrightarrow> j < length items \<Longrightarrow> \<not> unparsed_at items j"
  by (simp add: ages_present_def unparsed_at_def list_all_length)

text \<open>
  C1. When every age is present, the check returns the violation of the first adjacent
  pair whose later age is smaller: kind \<open>SORT_VIOLATION\<close>, the index of the later item
  (its position counted from 1 is one more), and the two items. The witness is the list
  with ages 60, 120, 90, 200: the violation is at position 3, with the items aged 120 and
  90, and nothing is reported for position 4.
\<close>

theorem validate_first_sort_violation:
  assumes "ages_present items" and "0 < i" and "i < length items"
      and "decreasing_at items i"
      and "\<forall>j. 0 < j \<and> j < i \<longrightarrow> \<not> decreasing_at items j"
  shows "validateSortedNewestToOldest items = NotOk SORT_VIOLATION i (items ! (i - 1)) (items ! i)
         \<and> position (validateSortedNewestToOldest items) = Some (i + 1)"
proof -
  have "\<forall>j. 0 < j \<and> j < i \<longrightarrow> \<not> pair_fails items j"
    using assms ages_present_not_unparsed [of items] by (auto simp: pair_fails_def)
  then have "validateSortedNewestToOldest items = validate_from i items"
    using assms by (intro validate_from_first_failure) (auto simp: pair_fails_def)
  then show ?thesis
    using assms by (simp add: validate_from_sort_violation)
qed

theorem validate_first_sort_violation_witness:
  "ages_present
     [item_of ''a'' (Some (Fin 60)), item_of ''b'' (Some (Fin 120)),
      item_of ''c'' (Some (Fin 90)), item_of ''d'' (Some (Fin 200))]
   \<and> decreasing_at
     [item_of ''a'' (Some (Fin 60)), item_of ''b'' (Some (Fin 120)),
      item_of ''c'' (Some (Fin 90)), item_of ''d'' (Some (Fin 200))] 2
   \<and> validateSortedNewestToOldest
     [item_of ''a'' (Some (Fin 60)), item_of ''b'' (Some (Fin 120)),
      item_of ''c'' (Some (Fin 90)), item_of ''d'' (Some (Fin 200))]
   = NotOk SORT_VIOLATION 2 (item_of ''b'' (Some (Fin 120))) (item_of ''c'' (Some (Fin 90)))
   \<and> position (validateSortedNewestToOldest
     [item_of ''a'' (Some (Fin 60)), item_of ''b'' (Some (Fin 120)),
      item_of ''c'' (Some (Fin 90)), item_of ''d'' (Some (Fin 200))]) = Some 3"
proof -
  let ?xs = "[item_of ''a'' (Some (Fin 60)), item_of ''b'' (Some (Fin 120)),
      item_of ''c'' (Some (Fin 90)), item_of ''d'' (Some (Fin 200))]"
  have one: "\<And>j::nat. 0 < j \<and> j < 2 \<Longrightarrow> j = 1" by arith
  have h1: "ages_present ?xs" by (simp add: ages_present_def item_of_def)
  have h2: "decreasing_at ?xs 2" by (simp add: decreasing_at_def item_of_def)
  have h3: "\<forall>j. 0 < j \<and> j < 2 \<longrightarrow> \<not> decreasing_at ?xs j"
    using one by (auto simp: decreasing_at_def item_of_def)
  show ?thesis
    using h1 h2 validate_first_sort_violation [OF h1 _ _ h2 h3] by simp
qed

text \<open>
  C2. When the check reaches an adjacent pair, all pairs before it having passed, and one
  of its two items has no parsed age, it returns a \<open>PARSE_ERROR\<close> for that pair with the
  index of the later item and the two items, whatever the other age is. The witness is
  the list with ages 60, null, 90: a parse error at position 2.
\<close>

theorem validate_parse_error_first:
  assumes "0 < i" and "i < length items" and "unparsed_at items i"
      and "\<forall>j. 0 < j \<and> j < i \<longrightarrow> \<not> pair_fails items j"
  shows "validateSortedNewestToOldest items = NotOk PARSE_ERROR i (items ! (i - 1)) (items ! i)
         \<and> position (validateSortedNewestToOldest items) = Some (i + 1)"
proof -
  have "validateSortedNewestToOldest items = validate_from i items"
    using assms by (intro validate_from_first_failure) (auto simp: pair_fails_def)
  then show ?thesis
    using assms by (simp add: validate_from_parse_error)
qed

theorem validate_parse_error_first_witness:
  "unparsed_at
     [item_of ''a'' (Some (Fin 60)), item_of ''b'' None, item_of ''c'' (Some (Fin 90))] 1
   \<and> validateSortedNewestToOldest
     [item_of ''a'' (Some (Fin 60)), item_of ''b'' None, item_of ''c'' (Some (Fin 90))]
   = NotOk PARSE_ERROR 1 (item_of ''a'' (Some (Fin 60))) (item_of ''b'' None)
   \<and> position (validateSortedNewestToOldest
     [item_of ''a'' (Some (Fin 60)), item_of ''b'' None, item_of ''c'' (Some (Fin 90))]) = Some 2"
proof -
  let ?xs = "[item_of ''a'' (Some (Fin 60)), item_of ''b'' None, item_of ''c'' (Some (Fin 90))]"
  have h1: "unparsed_at ?xs 1" by (simp add: unparsed_at_def item_of_def)
  have h2: "\<forall>j::nat. 0 < j \<and> j < 1 \<longrightarrow> \<not> pair_fails ?xs j" by simp
  show ?thesis
    using h1 validate_parse_error_first [OF _ _ h1 h2] by simp
qed

lemma non_decreasing_adjacent:
  assumes "ages_present items" and "non_decreasing items" and "0 < i" and "i < length items"
  shows "\<not> pair_fails items i"
proof -
  have "i - 1 < i" using assms by simp
  then have "\<not> less_num (the (ageSeconds (items ! i))) (the (ageSeconds (items ! (i - 1))))"
    using assms unfolding non_decreasing_def sorted_wrt_iff_nth_less by blast
  moreover have "ageSeconds (items ! i) \<noteq> None" "ageSeconds (items ! (i - 1)) \<noteq> None"
    using assms by (simp_all add: ages_present_def list_all_length)
  ultimately show ?thesis
    by (auto simp: pair_fails_def unparsed_at_def decreasing_at_def)
qed

text \<open>
  C3. A list whose ages are all present and never decrease, ties included, passes the
  check; and the check passes exactly when no adjacent pair fails.
\<close>

theorem validate_ok_iff_no_pair_fails:
  "(ages_present items \<and> non_decreasing items \<longrightarrow> validateSortedNewestToOldest items = Ok)
   \<and> (validateSortedNewestToOldest items = Ok
        \<longleftrightarrow> (\<forall>i. 0 < i \<and> i < length items \<longrightarrow> \<not> pair_fails items i))"
proof -
  have iff: "validateSortedNewestToOldest items = Ok
        \<longleftrightarrow> (\<forall>i. 0 < i \<and> i < length items \<longrightarrow> \<not> pair_fails items i)"
    by (simp add: validateSortedNewestToOldest_def validate_from_Ok_iff Suc_le_eq)
  show ?thesis
    using iff non_decreasing_adjacent [of items] by blast
qed

theorem validate_ok_iff_no_pair_fails_witness:
  "ages_present [item_of ''a'' (Some (Fin 60)), item_of ''b'' (Some (Fin 60)),
                 item_of ''c'' (Some (Fin 120))]
   \<and> non_decreasing [item_of ''a'' (Some (Fin 60)), item_of ''b'' (Some (Fin 60)),
                 item_of ''c'' (Some (Fin 120))]
   \<and> validateSortedNewestToOldest [item_of ''a'' (Some (Fin 60)), item_of ''b'' (Some (Fin 60)),
                 item_of ''c'' (Some (Fin 120))] = Ok
   \<and> \<not> pair_fails [item_of ''a'' (Some (Fin 60)), item_of ''b'' (Some (Fin 60)),
                 item_of ''c'' (Some (Fin 120))] 1
   \<and> \<not> pair_fails [item_of ''a'' (Some (Fin 60)), item_of ''b'' (Some (Fin 60)),
                 item_of ''c'' (Some (Fin 120))] 2"
proof -
  let ?xs = "[item_of ''a'' (Some (Fin 60)), item_of ''b'' (Some (Fin 60)),
                 item_of ''c'' (Some (Fin 120))]"
  have h1: "ages_present ?xs" by (simp add: ages_present_def item_of_def)
  have h2: "non_decreasing ?xs" by (simp add: non_decreasing_def item_of_def)
  have ok: "validateSortedNewestToOldest ?xs = Ok"
    using h1 h2 validate_ok_iff_no_pair_fails [of ?xs] by blast
  then have "\<forall>i. 0 < i \<and> i < length ?xs \<longrightarrow> \<not> pair_fails ?xs i"
    using validate_ok_iff_no_pair_fails [of ?xs] by blast
  then have "\<not> pair_fails ?xs 1" and "\<not> pair_fails ?xs 2"
    by simp_all
  then show ?thesis
    using h1 h2 ok by simp
qed

section \<open>Properties of the collection\<close>

lemma first_seen_ids: "r \<in> set (first_seen recs) \<Longrightarrow> id' r \<noteq> []"
  by (induction recs) (auto split: if_splits)

lemma first_seen_distinct: "distinct (map id' (first_seen recs))"
proof (induction recs)
  case Nil
  then show ?case by simp
next
  case (Cons r rs)
  have "distinct (map id' (filter (\<lambda>r'. id' r' \<noteq> id' r) (first_seen rs)))"
    using Cons by (simp add: distinct_map_filter)
  then show ?case using Cons by auto
qed

lemma pending_Nil: "pending S [] = []"
  by (simp add: pending_def)

lemma pending_Cons:
  "pending S (r # rs) =
     (if id' r = [] \<or> id' r \<in> S then pending S rs else r # pending (insert (id' r) S) rs)"
proof -
  have "filter (\<lambda>x. id' x \<notin> S) (filter (\<lambda>r'. id' r' \<noteq> id' r) (first_seen rs))
      = filter (\<lambda>x. id' x \<notin> S) (first_seen rs)" if "id' r \<in> S"
    using that by (auto intro: filter_cong)
  moreover have "filter (\<lambda>x. id' x \<notin> S) (filter (\<lambda>r'. id' r' \<noteq> id' r) (first_seen rs))
      = filter (\<lambda>x. id' x \<notin> insert (id' r) S) (first_seen rs)"
    by (auto intro: filter_cong)
  ultimately show ?thesis
    by (simp add: pending_def)
qed

lemma pending_empty_id: "pending (insert [] S) recs = pending S recs"
  unfolding pending_def by (rule filter_cong) (auto dest: first_seen_ids)

lemma pending_append:
  "pending S (xs @ ys) = pending S xs @ pending (S \<union> id' ` set xs) ys"
proof (induction xs arbitrary: S)
  case Nil
  then show ?case by (simp add: pending_Nil)
next
  case (Cons r xs)
  show ?case
  proof (cases "id' r = []")
    case True
    then show ?thesis
      using Cons [of S] pending_empty_id [of "S \<union> id' ` set xs" ys]
      by (simp add: pending_Cons)
  next
    case False
    show ?thesis
    proof (cases "id' r \<in> S")
      case True
      then have "insert (id' r) (S \<union> id' ` set xs) = S \<union> id' ` set xs" by auto
      then show ?thesis using Cons [of S] True by (simp add: pending_Cons)
    next
      case new: False
      have "insert (id' r) S \<union> id' ` set xs = insert (id' r) (S \<union> id' ` set xs)" by auto
      then show ?thesis
        using Cons [of "insert (id' r) S"] False new by (simp add: pending_Cons)
    qed
  qed
qed

lemma pending_first_seen: "pending {} recs = first_seen recs"
  by (simp add: pending_def)

lemma collect_page_collected:
  "length (collected st) < COUNT \<Longrightarrow>
   collected (collect_page COUNT recs st)
     = collected st @ take (COUNT - length (collected st)) (map make_item (pending (seen st) recs))"
proof (induction recs arbitrary: st)
  case Nil
  then show ?case by (simp add: pending_Nil)
next
  case (Cons r rs)
  show ?case
  proof (cases "id' r = [] \<or> id' r \<in> seen st")
    case True
    then show ?thesis using Cons by (auto simp: pending_Cons)
  next
    case False
    define st' where "st' = st\<lparr>seen := insert (id' r) (seen st),
                           collected := collected st @ [make_item r]\<rparr>"
    have len: "length (collected st') = Suc (length (collected st))"
      and seen': "seen st' = insert (id' r) (seen st)"
      and col': "collected st' = collected st @ [make_item r]"
      by (simp_all add: st'_def)
    show ?thesis
    proof (cases "length (collected st') = COUNT")
      case True
      then have "COUNT - length (collected st) = Suc 0" using len by simp
      then show ?thesis
        using False True by (simp add: pending_Cons Let_def st'_def [symmetric] col')
    next
      case full: False
      then have lt: "length (collected st') < COUNT" using len Cons.prems by simp
      have "COUNT - length (collected st) = Suc (COUNT - length (collected st'))"
        using len lt by simp
      then show ?thesis
        using False full Cons.IH [OF lt]
        by (simp add: pending_Cons Let_def st'_def [symmetric] col' seen')
    qed
  qed
qed

lemma collect_page_pagesVisited: "pagesVisited (collect_page COUNT recs st) = pagesVisited st"
  by (induction recs arbitrary: st) (simp_all add: Let_def)

lemma collect_page_seen:
  "length (collected st) + length (pending (seen st) recs) < COUNT \<Longrightarrow>
   seen (collect_page COUNT recs st) = seen st \<union> (id' ` set recs - {[]})"
proof (induction recs arbitrary: st)
  case Nil
  then show ?case by simp
next
  case (Cons r rs)
  show ?case
  proof (cases "id' r = [] \<or> id' r \<in> seen st")
    case True
    then show ?thesis using Cons by (auto simp: pending_Cons)
  next
    case False
    define st' where "st' = st\<lparr>seen := insert (id' r) (seen st),
                           collected := collected st @ [make_item r]\<rparr>"
    have len: "length (collected st') = Suc (length (collected st))"
      and seen': "seen st' = insert (id' r) (seen st)"
      by (simp_all add: st'_def)
    have bound: "length (collected st') + length (pending (seen st') rs) < COUNT"
      using Cons.prems False by (simp add: pending_Cons len seen')
    then have "length (collected st') \<noteq> COUNT" by simp
    then show ?thesis
      using False Cons.IH [OF bound]
      by (auto simp: Let_def st'_def [symmetric] seen')
  qed
qed

lemma pending_minus_empty: "pending (S - {[]}) recs = pending S recs"
  unfolding pending_def by (rule filter_cong) (auto dest: first_seen_ids)

lemma pending_Un_minus_empty: "pending (S \<union> (A - {[]})) recs = pending (S \<union> A) recs"
proof -
  have "(S \<union> (A - {[]})) - {[]} = (S \<union> A) - {[]}" by auto
  then show ?thesis
    using pending_minus_empty [of "S \<union> (A - {[]})" recs] pending_minus_empty [of "S \<union> A" recs]
    by simp
qed

lemma crawl_full:
  "\<not> length (collected st) < COUNT \<Longrightarrow> crawl COUNT cur later st = (st, None)"
  by (subst crawl.simps) simp

lemma crawl_no_rows:
  "length (collected st) < COUNT \<Longrightarrow> crawl COUNT [] later st = (st, Some SelectorTimeout)"
  by (subst crawl.simps) (simp add: getItemsOnPage_def)

lemma crawl_stays:
  "\<not> (length (collected st) < COUNT \<and> cur \<noteq> []) \<Longrightarrow> fst (crawl COUNT cur later st) = st"
  by (subst crawl.simps) (simp add: getItemsOnPage_def)

lemma crawl_filled:
  "length (collected st) < COUNT \<Longrightarrow> cur \<noteq> [] \<Longrightarrow>
   \<not> length (collected (collect_page COUNT cur st)) < COUNT \<Longrightarrow>
   crawl COUNT cur later st = (collect_page COUNT cur st, None)"
  by (subst crawl.simps) (simp add: getItemsOnPage_def Let_def)

lemma crawl_last:
  "length (collected st) < COUNT \<Longrightarrow> cur \<noteq> [] \<Longrightarrow>
   length (collected (collect_page COUNT cur st)) < COUNT \<Longrightarrow>
   crawl COUNT cur [] st = (collect_page COUNT cur st, Some MoreLinkTimeout)"
  by (subst crawl.simps) (simp add: getItemsOnPage_def Let_def)

lemma crawl_more:
  "length (collected st) < COUNT \<Longrightarrow> cur \<noteq> [] \<Longrightarrow>
   length (collected (collect_page COUNT cur st)) < COUNT \<Longrightarrow>
   crawl COUNT cur (nxt # later) st =
     crawl COUNT nxt later
       ((collect_page COUNT cur st)\<lparr>pagesVisited := pagesVisited (collect_page COUNT cur st) + 1\<rparr>)"
  by (subst crawl.simps) (simp add: getItemsOnPage_def Let_def)

lemma collect_page_not_full:
  assumes "length (collected st) < COUNT"
      and "length (collected (collect_page COUNT recs st)) < COUNT"
  shows "length (collected st) + length (pending (seen st) recs) < COUNT"
  using assms collect_page_collected [OF assms(1), of recs] by (simp add: min_def split: if_splits)

lemma collect_page_all:
  assumes "length (collected st) + length (pending (seen st) recs) < COUNT"
  shows "collected (collect_page COUNT recs st)
           = collected st @ map make_item (pending (seen st) recs)"
proof -
  have "length (collected st) < COUNT" using assms by simp
  then show ?thesis
    using assms by (simp add: collect_page_collected)
qed

lemma collect_page_length:
  "length (collected st) < COUNT \<Longrightarrow> length (collected (collect_page COUNT recs st)) \<le> COUNT"
  by (simp add: collect_page_collected)

lemma crawl_length:
  "length (collected st) \<le> COUNT \<Longrightarrow> length (collected (fst (crawl COUNT cur later st))) \<le> COUNT"
proof (induction later arbitrary: cur st)
  case Nil
  show ?case
  proof (cases "length (collected st) < COUNT \<and> cur \<noteq> []")
    case False
    then have "fst (crawl COUNT cur [] st) = st"
      by (rule crawl_stays)
    then show ?thesis using Nil by simp
  next
    case True
    have "fst (crawl COUNT cur [] st) = collect_page COUNT cur st"
      using True crawl_filled [of st COUNT cur "[]"] crawl_last [of st COUNT cur]
      by (cases "length (collected (collect_page COUNT cur st)) < COUNT") auto
    then show ?thesis using True by (simp add: collect_page_length)
  qed
next
  case (Cons nxt later)
  show ?case
  proof (cases "length (collected st) < COUNT \<and> cur \<noteq> []")
    case False
    then have "fst (crawl COUNT cur (nxt # later) st) = st"
      by (rule crawl_stays)
    then show ?thesis using Cons.prems by simp
  next
    case True
    show ?thesis
    proof (cases "length (collected (collect_page COUNT cur st)) < COUNT")
      case False
      then have "fst (crawl COUNT cur (nxt # later) st) = collect_page COUNT cur st"
        using True crawl_filled [of st COUNT cur "nxt # later"] by simp
      then show ?thesis using True by (simp add: collect_page_length)
    next
      case more: True
      then show ?thesis
        using True crawl_more [of st COUNT cur nxt later] Cons.IH by simp
    qed
  qed
qed

lemma id_make_item: "map id' (map make_item rs) = map id' rs"
  by (simp add: make_item_def comp_def)

lemma readable_Cons:
  "readable (cur # later) = (if cur = [] then [] else cur # readable later)"
  by (simp add: readable_def)

lemma crawl_collected_exact:
  "length (collected st) \<le> COUNT \<Longrightarrow>
   collected (fst (crawl COUNT cur later st))
     = collected st @ take (COUNT - length (collected st))
         (map make_item (pending (seen st) (concat (readable (cur # later)))))"
proof (induction later arbitrary: cur st)
  case Nil
  show ?case
  proof (cases "length (collected st) < COUNT \<and> cur \<noteq> []")
    case False
    then have "fst (crawl COUNT cur [] st) = st"
      by (rule crawl_stays)
    then show ?thesis
      using False Nil by (auto simp: readable_Cons pending_Nil)
  next
    case True
    have "fst (crawl COUNT cur [] st) = collect_page COUNT cur st"
      using True crawl_filled [of st COUNT cur "[]"] crawl_last [of st COUNT cur]
      by (cases "length (collected (collect_page COUNT cur st)) < COUNT") auto
    then show ?thesis
      using True by (simp add: collect_page_collected readable_Cons readable_def)
  qed
next
  case (Cons nxt later)
  show ?case
  proof (cases "length (collected st) < COUNT \<and> cur \<noteq> []")
    case False
    then have "fst (crawl COUNT cur (nxt # later) st) = st"
      by (rule crawl_stays)
    then show ?thesis
      using False Cons.prems by (auto simp: readable_Cons pending_Nil)
  next
    case True
    define st' where "st' = collect_page COUNT cur st"
    define k where "k = COUNT - length (collected st)"
    define P where "P = map make_item (pending (seen st) cur)"
    define rest where "rest = concat (readable (nxt # later))"
    define Q where "Q = map make_item (pending (seen st \<union> id' ` set cur) rest)"
    have split: "map make_item (pending (seen st) (concat (readable (cur # nxt # later)))) = P @ Q"
      using True pending_append [of "seen st" cur rest]
      by (simp add: readable_Cons [of cur] rest_def P_def Q_def)
    have col: "collected st' = collected st @ take k P"
      using True by (simp add: st'_def k_def P_def collect_page_collected)
    show ?thesis
    proof (cases "length (collected st') < COUNT")
      case False
      then have res: "fst (crawl COUNT cur (nxt # later) st) = st'"
        using True crawl_filled [of st COUNT cur "nxt # later"] by (simp add: st'_def)
      have "k \<le> length P"
        using False True col by (simp add: k_def min_def split: if_splits)
      then have "take k (P @ Q) = take k P" by simp
      then show ?thesis
        unfolding split res col k_def [symmetric] by simp
    next
      case more: True
      define st'' where "st'' = st'\<lparr>pagesVisited := pagesVisited st' + 1\<rparr>"
      have room: "length (collected st) + length (pending (seen st) cur) < COUNT"
        using True more collect_page_not_full [of st COUNT cur] by (simp add: st'_def)
      then have lenP: "length P < k" by (simp add: P_def k_def)
      have col'': "collected st'' = collected st @ P"
        using collect_page_all [OF room] by (simp add: st''_def st'_def P_def)
      have sn: "seen st'' = seen st \<union> (id' ` set cur - {[]})"
        using collect_page_seen [OF room] by (simp add: st''_def st'_def)
      have res: "crawl COUNT cur (nxt # later) st = crawl COUNT nxt later st''"
        using True more crawl_more [of st COUNT cur nxt later]
        by (simp add: st'_def st''_def)
      have "length (collected st'') \<le> COUNT"
        using more by (simp add: st''_def)
      then have "collected (fst (crawl COUNT nxt later st''))
          = collected st'' @ take (COUNT - length (collected st''))
              (map make_item (pending (seen st'') (concat (readable (nxt # later)))))"
        by (rule Cons.IH)
      also have "\<dots> = collected st @ P @ take (k - length P) Q"
        by (simp add: col'' sn pending_Un_minus_empty rest_def Q_def k_def)
      also have "P @ take (k - length P) Q = take k (P @ Q)"
        using lenP by simp
      finally show ?thesis
        unfolding res split k_def [symmetric] .
    qed
  qed
qed

lemma collect_page_seen_collected:
  "seen st = set (map id' (collected st)) \<Longrightarrow>
   seen (collect_page COUNT recs st) = set (map id' (collected (collect_page COUNT recs st)))"
proof (induction recs arbitrary: st)
  case Nil
  then show ?case by simp
next
  case (Cons r rs)
  show ?case
  proof (cases "id' r = [] \<or> id' r \<in> seen st")
    case True
    then show ?thesis using Cons by auto
  next
    case False
    define st' where "st' = st\<lparr>seen := insert (id' r) (seen st),
                           collected := collected st @ [make_item r]\<rparr>"
    have inv: "seen st' = set (map id' (collected st'))"
      using Cons.prems by (simp add: st'_def make_item_def)
    show ?thesis
      using False inv Cons.IH [OF inv]
      by (simp add: Let_def st'_def [symmetric])
  qed
qed

lemma crawl_seen_collected:
  "seen st = set (map id' (collected st)) \<Longrightarrow>
   seen (fst (crawl COUNT cur later st))
     = set (map id' (collected (fst (crawl COUNT cur later st))))"
proof (induction later arbitrary: cur st)
  case Nil
  show ?case
  proof (cases "length (collected st) < COUNT \<and> cur \<noteq> []")
    case False
    then have "fst (crawl COUNT cur [] st) = st"
      by (rule crawl_stays)
    then show ?thesis using Nil by simp
  next
    case True
    have "fst (crawl COUNT cur [] st) = collect_page COUNT cur st"
      using True crawl_filled [of st COUNT cur "[]"] crawl_last [of st COUNT cur]
      by (cases "length (collected (collect_page COUNT cur st)) < COUNT") auto
    then show ?thesis
      using Nil by (simp add: collect_page_seen_collected)
  qed
next
  case (Cons nxt later)
  show ?case
  proof (cases "length (collected st) < COUNT \<and> cur \<noteq> []")
    case False
    then have "fst (crawl COUNT cur (nxt # later) st) = st"
      by (rule crawl_stays)
    then show ?thesis using Cons.prems by simp
  next
    case True
    define st' where "st' = collect_page COUNT cur st"
    have inv: "seen st' = set (map id' (collected st'))"
      using Cons.prems by (simp add: st'_def collect_page_seen_collected)
    show ?thesis
    proof (cases "length (collected st') < COUNT")
      case False
      then have "fst (crawl COUNT cur (nxt # later) st) = st'"
        using True crawl_filled [of st COUNT cur "nxt # later"] by (simp add: st'_def)
      then show ?thesis using inv by simp
    next
      case more: True
      define st'' where "st'' = st'\<lparr>pagesVisited := pagesVisited st' + 1\<rparr>"
      have res: "crawl COUNT cur (nxt # later) st = crawl COUNT nxt later st''"
        using True more crawl_more [of st COUNT cur nxt later]
        by (simp add: st'_def st''_def)
      have "seen st'' = set (map id' (collected st''))"
        using inv by (simp add: st''_def)
      then show ?thesis
        unfolding res by (rule Cons.IH)
    qed
  qed
qed

text \<open>
  C6. Whatever pages are fed, the collected items are exactly the first \<open>COUNT\<close> of the
  rows that have an identifier, each identifier taken at its first occurrence, in the
  order met over the pages read (those before the first page that shows no row). So an
  identifier is collected at the place of its first occurrence and only there, later
  occurrences on the same or a later page are passed over, the identifiers seen are those
  collected, and a row without identifier is never collected.
\<close>

theorem collected_first_occurrences:
  "collected (fst (crawl COUNT cur later initial_crawl))
     = take COUNT (map make_item (first_seen (concat (readable (cur # later)))))
   \<and> seen (fst (crawl COUNT cur later initial_crawl))
     = set (map id' (collected (fst (crawl COUNT cur later initial_crawl))))
   \<and> distinct (map id' (collected (fst (crawl COUNT cur later initial_crawl))))
   \<and> [] \<notin> set (map id' (collected (fst (crawl COUNT cur later initial_crawl))))"
proof -
  define c where "c = collected (fst (crawl COUNT cur later initial_crawl))"
  define fs where "fs = first_seen (concat (readable (cur # later)))"
  have exact: "c = take COUNT (map make_item fs)"
    using crawl_collected_exact [of initial_crawl COUNT cur later]
    by (simp add: c_def fs_def initial_crawl_def pending_first_seen)
  have "map id' c = take COUNT (map id' (map make_item fs))"
    unfolding exact by (rule take_map [symmetric])
  then have ids: "map id' c = take COUNT (map id' fs)"
    by (simp only: id_make_item)
  have "distinct (map id' fs)"
    unfolding fs_def by (rule first_seen_distinct)
  moreover have "[] \<notin> set (map id' fs)"
    unfolding fs_def using first_seen_ids [of _ "concat (readable (cur # later))"] by force
  ultimately have "distinct (map id' c)" and "[] \<notin> set (map id' c)"
    unfolding ids by (auto dest: in_set_takeD)
  moreover have "seen (fst (crawl COUNT cur later initial_crawl)) = set (map id' c)"
    unfolding c_def by (rule crawl_seen_collected) (simp add: initial_crawl_def)
  ultimately show ?thesis
    using exact unfolding c_def fs_def by simp
qed

lemma collect_page_stop:
  "length (collected st) < COUNT \<Longrightarrow> length (collected (collect_page COUNT pre st)) = COUNT \<Longrightarrow>
   collect_page COUNT (pre @ post) st = collect_page COUNT pre st"
proof (induction pre arbitrary: st)
  case Nil
  then show ?case by simp
next
  case (Cons r rs)
  show ?case
  proof (cases "id' r = [] \<or> id' r \<in> seen st")
    case True
    then show ?thesis using Cons by auto
  next
    case False
    define st' where "st' = st\<lparr>seen := insert (id' r) (seen st),
                           collected := collected st @ [make_item r]\<rparr>"
    have len: "length (collected st') = Suc (length (collected st))"
      by (simp add: st'_def)
    show ?thesis
    proof (cases "length (collected st') = COUNT")
      case True
      then show ?thesis using False by (simp add: Let_def st'_def [symmetric])
    next
      case full: False
      then have lt: "length (collected st') < COUNT" using len Cons.prems by simp
      have "length (collected (collect_page COUNT rs st')) = COUNT"
        using Cons.prems(2) False full by (simp add: Let_def st'_def [symmetric])
      then have "collect_page COUNT (rs @ post) st' = collect_page COUNT rs st'"
        using lt by (rule Cons.IH [rotated])
      then show ?thesis
        using False full by (simp add: Let_def st'_def [symmetric])
    qed
  qed
qed

text \<open>
  C7. The collection never holds more than \<open>COUNT\<close> items, over a whole crawl and over
  each page. Once a page has brought the length to \<open>COUNT\<close>, the rows after that point
  change nothing, and the crawl ends with that page: no later step looks at them.
\<close>

theorem collected_never_exceeds_count:
  "length (collected (fst (crawl COUNT cur later initial_crawl))) \<le> COUNT
   \<and> (length (collected st) < COUNT \<longrightarrow>
        length (collected (collect_page COUNT batch st)) \<le> COUNT)
   \<and> (length (collected st) < COUNT \<and> length (collected (collect_page COUNT pre st)) = COUNT \<longrightarrow>
        collect_page COUNT (pre @ post) st = collect_page COUNT pre st)
   \<and> (length (collected st) < COUNT \<and> pre \<noteq> []
        \<and> length (collected (collect_page COUNT pre st)) = COUNT \<longrightarrow>
        crawl COUNT pre later st = (collect_page COUNT pre st, None))"
proof -
  have "length (collected (fst (crawl COUNT cur later initial_crawl))) \<le> COUNT"
    by (rule crawl_length) (simp add: initial_crawl_def)
  then show ?thesis
    by (simp add: collect_page_length collect_page_stop crawl_filled)
qed

lemmas crawl_eval = initial_crawl_def row_def getItemsOnPage_def Let_def

theorem collected_never_exceeds_count_witness:
  "length (collected initial_crawl) < 2
   \<and> length (collected (collect_page 2
        [row ''1'' ''1 minute ago'', row ''2'' ''2 minutes ago''] initial_crawl)) = 2
   \<and> length (collected (collect_page 2
        [row ''1'' ''1 minute ago'', row ''2'' ''2 minutes ago'', row ''3'' ''3 minutes ago'']
        initial_crawl)) \<le> 2
   \<and> collect_page 2
        ([row ''1'' ''1 minute ago'', row ''2'' ''2 minutes ago''] @ [row ''3'' ''3 minutes ago''])
        initial_crawl
       = collect_page 2 [row ''1'' ''1 minute ago'', row ''2'' ''2 minutes ago''] initial_crawl
   \<and> crawl 2 [row ''1'' ''1 minute ago'', row ''2'' ''2 minutes ago'']
        [[row ''3'' ''3 minutes ago'']] initial_crawl
       = (collect_page 2 [row ''1'' ''1 minute ago'', row ''2'' ''2 minutes ago''] initial_crawl,
          None)"
proof -
  let ?pre = "[row ''1'' ''1 minute ago'', row ''2'' ''2 minutes ago'']"
  have h1: "length (collected initial_crawl) < 2"
    by (simp add: initial_crawl_def)
  have h2: "length (collected (collect_page 2 ?pre initial_crawl)) = 2"
    by (simp add: crawl_eval lit_def)
  have h3: "?pre \<noteq> []" by simp
  note t = collected_never_exceeds_count [of 2 ?pre "[[row ''3'' ''3 minutes ago'']]"
      initial_crawl "?pre @ [row ''3'' ''3 minutes ago'']" ?pre "[row ''3'' ''3 minutes ago'']"]
  show ?thesis
    using h1 h2 h3 t by simp
qed

text \<open>
  An identifier met on two pages, and a row without identifier: three items are wanted,
  and the fourth identifier is left out.
\<close>

lemma collected_example:
  "map id' (collected (fst (crawl 3 [row ''1'' ''1 minute ago'', row ''2'' ''2 minutes ago'']
      [[row ''2'' ''2 minutes ago'', row '''' ''3 minutes ago'', row ''3'' ''4 minutes ago'',
        row ''4'' ''5 minutes ago'']] initial_crawl)))
   = [lit ''1'', lit ''2'', lit ''3'']"
  by (simp add: crawl.simps crawl_eval lit_def make_item_def)

section \<open>Properties of the run\<close>

lemma pending_append_length:
  "length (pending S xs) \<le> length (pending S (xs @ ys))"
  by (simp add: pending_append)

lemma readable_first_seen_length:
  "length (first_seen (concat (readable ps))) \<le> length (first_seen (concat ps))"
proof -
  have "ps = readable ps @ dropWhile (\<lambda>p. p \<noteq> []) ps"
    by (simp add: readable_def)
  then have "concat ps = concat (readable ps) @ concat (dropWhile (\<lambda>p. p \<noteq> []) ps)"
    by (metis concat_append)
  then show ?thesis
    using pending_append_length [of "{}" "concat (readable ps)"
        "concat (dropWhile (\<lambda>p. p \<noteq> []) ps)"]
    by (simp add: pending_first_seen)
qed

lemma crawl_short:
  assumes "length (collected st)
             + length (pending (seen st) (concat (readable (cur # later)))) < COUNT"
  shows "snd (crawl COUNT cur later st)
           = Some (if [] \<in> set (cur # later) then SelectorTimeout else MoreLinkTimeout)
         \<and> pagesVisited (fst (crawl COUNT cur later st))
           = pagesVisited st
             + (if [] \<in> set (cur # later) then length (readable (cur # later))
                else length later)"
  using assms
proof (induction later arbitrary: cur st)
  case Nil
  then have lt: "length (collected st) < COUNT" by simp
  show ?case
  proof (cases "cur = []")
    case True
    then show ?thesis
      using lt by (simp add: crawl_no_rows readable_Cons)
  next
    case False
    then have room: "length (collected st) + length (pending (seen st) cur) < COUNT"
      using Nil by (simp add: readable_Cons readable_def)
    then have "length (collected (collect_page COUNT cur st)) < COUNT"
      using collect_page_all [OF room] by simp
    then have "crawl COUNT cur [] st = (collect_page COUNT cur st, Some MoreLinkTimeout)"
      using lt False by (intro crawl_last)
    then show ?thesis
      using False by (simp add: collect_page_pagesVisited)
  qed
next
  case (Cons nxt later)
  then have lt: "length (collected st) < COUNT" by simp
  show ?case
  proof (cases "cur = []")
    case True
    then show ?thesis
      using lt by (simp add: crawl_no_rows readable_Cons)
  next
    case False
    define rest where "rest = concat (readable (nxt # later))"
    define st' where "st' = collect_page COUNT cur st"
    define st'' where "st'' = st'\<lparr>pagesVisited := pagesVisited st' + 1\<rparr>"
    have split: "pending (seen st) (concat (readable (cur # nxt # later)))
        = pending (seen st) cur @ pending (seen st \<union> id' ` set cur) rest"
      using False pending_append [of "seen st" cur rest]
      by (simp add: readable_Cons [of cur] rest_def)
    have total: "length (collected st) + length (pending (seen st) cur)
        + length (pending (seen st \<union> id' ` set cur) rest) < COUNT"
      using Cons.prems unfolding split by simp
    then have room: "length (collected st) + length (pending (seen st) cur) < COUNT"
      by simp
    have col: "collected st'' = collected st @ map make_item (pending (seen st) cur)"
      using collect_page_all [OF room] by (simp add: st''_def st'_def)
    have sn: "seen st'' = seen st \<union> (id' ` set cur - {[]})"
      using collect_page_seen [OF room] by (simp add: st''_def st'_def)
    have pv: "pagesVisited st'' = pagesVisited st + 1"
      by (simp add: st''_def st'_def collect_page_pagesVisited)
    have "length (collected st') < COUNT"
      using collect_page_all [OF room] room by (simp add: st'_def)
    then have res: "crawl COUNT cur (nxt # later) st = crawl COUNT nxt later st''"
      using lt False crawl_more [of st COUNT cur nxt later]
      by (simp add: st'_def st''_def)
    have "length (collected st'')
        + length (pending (seen st'') (concat (readable (nxt # later)))) < COUNT"
      using total by (simp add: col sn pending_Un_minus_empty rest_def)
    then have IH: "snd (crawl COUNT nxt later st'')
           = Some (if [] \<in> set (nxt # later) then SelectorTimeout else MoreLinkTimeout)
         \<and> pagesVisited (fst (crawl COUNT nxt later st''))
           = pagesVisited st''
             + (if [] \<in> set (nxt # later) then length (readable (nxt # later))
                else length later)"
      by (rule Cons.IH)
    have mem: "[] \<in> set (cur # nxt # later) \<longleftrightarrow> [] \<in> set (nxt # later)"
      using False by auto
    have len: "length (readable (cur # nxt # later)) = Suc (length (readable (nxt # later)))"
      using False by (simp add: readable_Cons [of cur])
    show ?thesis
      unfolding res mem len using IH by (simp add: pv)
  qed
qed

lemma writeArtifacts_keeps:
  "crawled (fst (writeArtifacts mode w l v)) = crawled v"
  "validationResult (fst (writeArtifacts mode w l v)) = validationResult v"
  "status (fst (writeArtifacts mode w l v)) = status v"
  "detail (fst (writeArtifacts mode w l v)) = detail v"
  "exitCode (fst (writeArtifacts mode w l v)) = exitCode v"
  by (simp_all add: writeArtifacts_def)

lemma catch_block_sets:
  "crawled (catch_block mode w e v) = crawled v"
  "validationResult (catch_block mode w e v) = validationResult v"
  "status (catch_block mode w e v) = status v"
  "detail (catch_block mode w e v) = Some e"
  "exitCode (catch_block mode w e v) = Some 1"
  by (simp_all add: catch_block_def Let_def writeArtifacts_keeps)

lemma finally_block_keeps:
  "crawled (fst (finally_block w v)) = crawled v"
  "validationResult (fst (finally_block w v)) = validationResult v"
  "status (fst (finally_block w v)) = status v"
  "detail (fst (finally_block w v)) = detail v"
  "exitCode (fst (finally_block w v)) = exitCode v"
  by (simp_all add: finally_block_def writeSummary_def)

lemma run_thrown:
  "try_block COUNT mode w = (v, Some e) \<Longrightarrow>
   run COUNT mode w = finally_block w (catch_block mode w e v)"
  by (simp add: run_def)

text \<open>
  C8. When the identifiers of the whole feed are fewer than \<open>COUNT\<close>, the run ends with
  status \<open>FAIL\<close>, exit code 1 and no validation result, which sets it apart from a parse
  error or a sort violation (they leave a validation result with a kind). Its detail is
  the timeout of a navigation step: the wait for a More link after the last page when
  every page shows rows, the wait for a row on the first page that shows none otherwise.
  The script's own error about the number of items, \<open>ExpectedExactly\<close>, is not the one
  raised.
\<close>

theorem run_insufficient_items:
  assumes "length (first_seen (concat (first_page w # later_pages w))) < COUNT"
  shows "status (fst (run COUNT mode w)) = FAIL
         \<and> exitCode (fst (run COUNT mode w)) = Some 1
         \<and> validationResult (fst (run COUNT mode w)) = None
         \<and> detail (fst (run COUNT mode w))
             = Some (if [] \<in> set (first_page w # later_pages w) then SelectorTimeout
                     else MoreLinkTimeout)
         \<and> pagesVisited (crawled (fst (run COUNT mode w)))
             = 1 + (if [] \<in> set (first_page w # later_pages w)
                    then length (readable (first_page w # later_pages w))
                    else length (later_pages w))"
proof -
  define e where "e = (if [] \<in> set (first_page w # later_pages w) then SelectorTimeout
                     else MoreLinkTimeout)"
  have "length (first_seen (concat (readable (first_page w # later_pages w)))) < COUNT"
    using assms readable_first_seen_length [of "first_page w # later_pages w"]
    by (rule le_less_trans [rotated])
  then have short: "length (collected initial_crawl)
      + length (pending (seen initial_crawl)
          (concat (readable (first_page w # later_pages w)))) < COUNT"
    by (simp add: initial_crawl_def pending_first_seen)
  obtain st where c: "crawl COUNT (first_page w) (later_pages w) initial_crawl = (st, Some e)"
    and pv: "pagesVisited st = 1 + (if [] \<in> set (first_page w # later_pages w)
                    then length (readable (first_page w # later_pages w))
                    else length (later_pages w))"
    using crawl_short [OF short]
    by (cases "crawl COUNT (first_page w) (later_pages w) initial_crawl")
       (simp add: initial_crawl_def e_def)
  have "try_block COUNT mode w = (initial_vars\<lparr>crawled := st\<rparr>, Some e)"
    by (simp add: try_block_def c)
  then have "run COUNT mode w
      = finally_block w (catch_block mode w e (initial_vars\<lparr>crawled := st\<rparr>))"
    by (rule run_thrown)
  then show ?thesis
    unfolding e_def [symmetric]
    by (simp add: finally_block_keeps catch_block_sets initial_vars_def pv)
qed

lemmas run_eval = run_def try_block_def catch_block_def finally_block_def writeSummary_def
  writeArtifacts_def
  initial_vars_def crawl.simps crawl_eval make_item_def validateSortedNewestToOldest_def
  validate_from.simps

theorem run_insufficient_items_witness:
  "length (first_seen (concat (first_page short_feed # later_pages short_feed))) < 4
   \<and> status (fst (run 4 On_fail short_feed)) = FAIL
   \<and> exitCode (fst (run 4 On_fail short_feed)) = Some 1
   \<and> validationResult (fst (run 4 On_fail short_feed)) = None
   \<and> detail (fst (run 4 On_fail short_feed)) = Some MoreLinkTimeout
   \<and> pagesVisited (crawled (fst (run 4 On_fail short_feed))) = 2
   \<and> length (first_seen (concat (first_page broken_feed # later_pages broken_feed))) < 2
   \<and> status (fst (run 2 On_fail broken_feed)) = FAIL
   \<and> exitCode (fst (run 2 On_fail broken_feed)) = Some 1
   \<and> validationResult (fst (run 2 On_fail broken_feed)) = None
   \<and> detail (fst (run 2 On_fail broken_feed)) = Some SelectorTimeout
   \<and> pagesVisited (crawled (fst (run 2 On_fail broken_feed))) = 2"
proof -
  have h: "length (first_seen (concat (first_page short_feed # later_pages short_feed))) < 4"
    by (simp add: short_feed_def row_def lit_def)
  have g: "length (first_seen (concat (first_page broken_feed # later_pages broken_feed))) < 2"
    by (simp add: broken_feed_def row_def lit_def)
  have e1: "[] \<notin> set (first_page short_feed # later_pages short_feed)"
    by (simp add: short_feed_def)
  have e2: "[] \<in> set (first_page broken_feed # later_pages broken_feed)"
    by (simp add: broken_feed_def)
  have l1: "length (later_pages short_feed) = 1"
    by (simp add: short_feed_def)
  have l2: "length (readable (first_page broken_feed # later_pages broken_feed)) = 1"
    by (simp add: broken_feed_def readable_def)
  show ?thesis
    using h g run_insufficient_items [OF h, of On_fail] run_insufficient_items [OF g, of On_fail]
    by (simp only: e1 e2 l1 l2 if_True if_False) simp
qed

theorem run_insufficient_items_counterexample:
  "status (fst (run 4 On_fail short_feed)) = FAIL
   \<and> detail (fst (run 4 On_fail short_feed)) = Some MoreLinkTimeout
   \<and> detail (fst (run 4 On_fail short_feed)) \<noteq> Some (ExpectedExactly 4 3)"
  by (simp add: short_feed_def run_eval lit_def)

text \<open>
  In general: whenever the crawl ends with \<open>COUNT\<close> items that pass the check, the
  artifacts are always written, and that write fails, the exit code is 1 and the status
  \<open>PASS\<close>.
\<close>

lemma run_pass_artifacts_fail:
  assumes "crawl COUNT (first_page w) (later_pages w) initial_crawl = (st, None)"
      and "length (collected st) = COUNT"
      and "validateSortedNewestToOldest (collected st) = Ok"
      and "artifacts_fail w"
  shows "validationResult (fst (run COUNT Always w)) = Some Ok
         \<and> status (fst (run COUNT Always w)) = PASS
         \<and> exitCode (fst (run COUNT Always w)) = Some 1
         \<and> detail (fst (run COUNT Always w)) = Some ArtifactsError"
proof -
  have "try_block COUNT Always w
      = (initial_vars\<lparr>crawled := st, validationResult := Some Ok, status := PASS,
                       exitCode := Some 0\<rparr>, Some ArtifactsError)"
    using assms by (simp add: try_block_def writeArtifacts_def Let_def)
  then have "run COUNT Always w
      = finally_block w (catch_block Always w ArtifactsError
          (initial_vars\<lparr>crawled := st, validationResult := Some Ok, status := PASS,
                        exitCode := Some 0\<rparr>))"
    by (rule run_thrown)
  then show ?thesis
    by (simp add: finally_block_keeps catch_block_sets)
qed

lemma run_pass_otherwise:
  assumes "crawl COUNT (first_page w) (later_pages w) initial_crawl = (st, None)"
      and "length (collected st) = COUNT"
      and "validateSortedNewestToOldest (collected st) = Ok"
      and "mode \<noteq> Always \<or> \<not> artifacts_fail w"
  shows "status (fst (run COUNT mode w)) = PASS \<and> exitCode (fst (run COUNT mode w)) = Some 0"
  using assms
  by (auto simp: run_def try_block_def writeArtifacts_def finally_block_def writeSummary_def
      Let_def)

text \<open>
  C9. The claim is that a failed write of the artifacts or of the summary never turns a
  passed run into a failed one. The script breaks it, as this run shows: validation
  passes, \<open>ARTIFACTS\<close> is \<open>always\<close>, and the artifact write fails. The pass branch awaits
  \<open>writeArtifacts\<close> without a handler, so the error lands in the \<open>catch\<close> block, which
  sets the exit code to 1 while the status stays \<open>PASS\<close>. With a working write the exit
  code is 0. A failing summary write leaves the routine as an uncaught error.
\<close>

theorem run_artifacts_failure_fails_pass:
  "validationResult (fst (run 2 Always (sorted_feed True False))) = Some Ok
   \<and> status (fst (run 2 Always (sorted_feed True False))) = PASS
   \<and> exitCode (fst (run 2 Always (sorted_feed True False))) = Some 1
   \<and> detail (fst (run 2 Always (sorted_feed True False))) = Some ArtifactsError
   \<and> exitCode (fst (run 2 Always (sorted_feed False False))) = Some 0
   \<and> validationResult (fst (run 2 Off (sorted_feed False True))) = Some Ok
   \<and> snd (run 2 Off (sorted_feed False True)) = Some SummaryError"
  by (simp add: sorted_feed_def run_eval parseAgeToSeconds_def match_age_def match_ago_def
      trim_def toLowerCase_def startsWith_def Number_def round_double_def bitlen_0 bitlen_pos
      char_eval)

section \<open>Properties of the basic script\<close>

text \<open>
  The check of the basic script throws exactly where the extended one reports a
  violation, with the same items and the position one above the index.
\<close>

lemma assert_from_validate_from:
  "assert_from k items =
     (case validate_from k items of
        Ok \<Rightarrow> None
      | NotOk PARSE_ERROR i p c \<Rightarrow> Some (AgeParseFailed p c)
      | NotOk SORT_VIOLATION i p c \<Rightarrow> Some (SortingViolation (i + 1) p c))"
proof (induction "length items - k" arbitrary: k)
  case 0
  then have "\<not> k < length items" by simp
  then show ?case
    by (subst assert_from.simps, subst validate_from.simps) simp
next
  case (Suc d)
  then have lt: "k < length items" and "d = length items - Suc k" by simp_all
  then have IH: "assert_from (Suc k) items =
     (case validate_from (Suc k) items of
        Ok \<Rightarrow> None
      | NotOk PARSE_ERROR i p c \<Rightarrow> Some (AgeParseFailed p c)
      | NotOk SORT_VIOLATION i p c \<Rightarrow> Some (SortingViolation (i + 1) p c))"
    using Suc.hyps(1) by simp
  show ?case
    using lt IH
    by (subst assert_from.simps, subst validate_from.simps)
       (simp add: Let_def split: option.splits)
qed

lemma assertSorted_validateSorted:
  "assertSortedNewestToOldest items =
     (case validateSortedNewestToOldest items of
        Ok \<Rightarrow> None
      | NotOk PARSE_ERROR i p c \<Rightarrow> Some (AgeParseFailed p c)
      | NotOk SORT_VIOLATION i p c \<Rightarrow> Some (SortingViolation (i + 1) p c))"
  by (simp add: assertSortedNewestToOldest_def validateSortedNewestToOldest_def
      assert_from_validate_from)

text \<open>The two parsers return null on the same texts, and agree where both are exact.\<close>

lemma parse_basic_None_iff:
  "parseAgeToSeconds_basic s = None \<longleftrightarrow> parseAgeToSeconds s = None"
  by (auto simp: parseAgeToSeconds_basic_def parseAgeToSeconds_def Let_def split: option.splits)

lemma parse_basic_grammar_exact:
  assumes "age_parts ds w1 p u w2 a" and "decimal ds * unit_seconds p < 2 ^ 53"
  shows "parseAgeToSeconds_basic (age_text ds w1 u w2 a)
     = Some (Fin (decimal ds * unit_seconds p))"
proof -
  have p: "p \<in> set units" and sp: "spells p u"
    using assms(1) by (simp_all add: age_parts_def)
  have m: "match_age (trim (age_text ds w1 u w2 a)) = Some (ds, u)"
    using assms(1) by (simp add: trim_age_text match_age_complete)
  have low: "toLowerCase u = lit p"
    using sp units_letters [OF p] by (rule spells_lower)
  have cases: "unit_seconds p = 60 \<or> unit_seconds p = 3600 \<or> unit_seconds p = 86400"
    by (simp add: unit_seconds_def)
  then have parsed: "parseAgeToSeconds_basic (age_text ds w1 u w2 a)
      = Some (times_lit (Number ds) (unit_seconds p))"
    using unit_branch [OF p] by (auto simp: parseAgeToSeconds_basic_def m low Let_def)
  have "0 < unit_seconds p" using cases by auto
  then have "decimal ds \<le> decimal ds * unit_seconds p" by simp
  then have "decimal ds < 2 ^ 53" using assms(2) by (rule le_less_trans)
  then have "Number ds = Fin (decimal ds)"
    by (simp add: Number_def round_double_exact)
  then show ?thesis
    using parsed times_lit_exact [OF assms(2)] by simp
qed

end
